theory Spec2Isabelle
  imports Complex_Main
begin

section \<open>Strings as the source uses them\<close>

text \<open>
  JavaScript strings are modelled as \<open>string\<close> (a list of 8-bit characters, read as
  Latin-1 code units).  The helpers below are the string built-ins the orchestrator and
  the chat agent call: \<open>startsWith\<close>, \<open>includes\<close>, \<open>toLowerCase\<close>, \<open>trim\<close>,
  \<open>Array.prototype.join\<close> and the decimal rendering of a non-negative integer inside
  a template literal.
\<close>

fun startsWith :: "string \<Rightarrow> string \<Rightarrow> bool" where
  "startsWith s [] = True"
| "startsWith [] (p # ps) = False"
| "startsWith (c # s) (p # ps) = (c = p \<and> startsWith s ps)"

fun includes' :: "string \<Rightarrow> string \<Rightarrow> bool" where
  "includes' [] p = (p = [])"
| "includes' (c # s) p = (startsWith (c # s) p \<or> includes' s p)"

definition lowerChar :: "char \<Rightarrow> char" where
  "lowerChar c =
     (let n = (of_char c :: nat)
      in if (65 \<le> n \<and> n \<le> 90) \<or> (192 \<le> n \<and> n \<le> 222 \<and> n \<noteq> 215)
         then char_of (n + 32) else c)"

definition toLowerCase :: "string \<Rightarrow> string" where
  "toLowerCase s = map lowerChar s"

definition isWhiteSpace :: "char \<Rightarrow> bool" where
  "isWhiteSpace c = ((of_char c :: nat) \<in> {9, 10, 11, 12, 13, 32, 160})"

definition trim :: "string \<Rightarrow> string" where
  "trim s = rev (dropWhile isWhiteSpace (rev (dropWhile isWhiteSpace s)))"

fun join :: "string \<Rightarrow> string list \<Rightarrow> string" where
  "join sep [] = []"
| "join sep [x] = x"
| "join sep (x # y # ys) = x @ sep @ join sep (y # ys)"

fun showNat :: "nat \<Rightarrow> string" where
  "showNat n =
     (if n < 10 then [''0123456789'' ! n]
      else showNat (n div 10) @ [''0123456789'' ! (n mod 10)])"

declare showNat.simps [simp del]

section \<open>Numbers\<close>

text \<open>
  A JavaScript number is an IEEE 754 binary64 value: \<open>NaN\<close>, one of the two infinities,
  negative zero, or \<open>Num q\<close> for the finite value \<open>q\<close> (\<open>Num 0\<close> is positive zero).
  \<open>roundNumber\<close> rounds a rational to the nearest binary64 value, ties to the even
  significand: \<open>roundMagnitude\<close> rounds a positive rational to a multiple of \<open>2 ^ p\<close>,
  where \<open>p\<close> is the exponent of the last place of its binade (at least \<open>-1074\<close>, the
  subnormal spacing), and a rounded magnitude of \<open>2 ^ 1024\<close> or more is an infinity.
  A \<open>Num q\<close> whose \<open>q\<close> is not a binary64 value is read as the binary64 value nearest to
  \<open>q\<close>, as a decimal literal or a JSON number is (\<open>canonical\<close>).  \<open>numAdd\<close> is the operator
  \<open>+\<close> on two numbers: the exact sum of the two values, rounded.
\<close>

datatype number = NaN | PosInfinity | NegInfinity | NegZero | Num rat

function ilog2 :: "int \<Rightarrow> int" where
  "ilog2 n = (if n < 2 then 0 else 1 + ilog2 (n div 2))"
  by pat_completeness auto
termination
  by (relation "measure nat") auto

declare ilog2.simps [simp del]

definition pow2 :: "int \<Rightarrow> rat" where
  "pow2 e = (if 0 \<le> e then 2 ^ nat e else 1 / 2 ^ nat (- e))"

definition floorLog2 :: "rat \<Rightarrow> int" where
  "floorLog2 q =
     (if 1 \<le> q then ilog2 \<lfloor>q\<rfloor>
      else let k = \<lceil>1 / q\<rceil>
           in - (if k \<le> 1 then 0 else 1 + ilog2 (k - 1)))"

definition roundHalfEven :: "rat \<Rightarrow> int" where
  "roundHalfEven m =
     (let f = \<lfloor>m\<rfloor>; d = m - of_int f
      in if d < 1 / 2 then f else if 1 / 2 < d then f + 1 else if even f then f else f + 1)"

definition roundMagnitude :: "rat \<Rightarrow> rat" where
  "roundMagnitude q =
     (let p = max (floorLog2 q - 52) (- 1074)
      in of_int (roundHalfEven (q / pow2 p)) * pow2 p)"

definition roundNumber :: "rat \<Rightarrow> number" where
  "roundNumber q =
     (if q = 0 then Num 0
      else let r = roundMagnitude \<bar>q\<bar>
           in if pow2 1024 \<le> r then (if 0 < q then PosInfinity else NegInfinity)
              else if r = 0 then (if 0 < q then Num 0 else NegZero)
              else Num (if 0 < q then r else - r))"

definition canonical :: "number \<Rightarrow> number" where
  "canonical x = (case x of Num q \<Rightarrow> roundNumber q | _ \<Rightarrow> x)"

fun addValues :: "number \<Rightarrow> number \<Rightarrow> number" where
  "addValues NaN y = NaN"
| "addValues x NaN = NaN"
| "addValues PosInfinity NegInfinity = NaN"
| "addValues NegInfinity PosInfinity = NaN"
| "addValues PosInfinity y = PosInfinity"
| "addValues x PosInfinity = PosInfinity"
| "addValues NegInfinity y = NegInfinity"
| "addValues x NegInfinity = NegInfinity"
| "addValues NegZero y = y"
| "addValues x NegZero = x"
| "addValues (Num a) (Num b) = roundNumber (a + b)"

definition numAdd :: "number \<Rightarrow> number \<Rightarrow> number" where
  "numAdd x y = addValues (canonical x) (canonical y)"

text \<open>The numbers that count as false: \<open>0\<close>, \<open>-0\<close> and \<open>NaN\<close>.\<close>

definition falsy :: "number \<Rightarrow> bool" where
  "falsy x = (canonical x = Num 0 \<or> canonical x = NegZero \<or> canonical x = NaN)"

section \<open>Data model (types.ts, invoker.ts)\<close>

text \<open>
  The constant \<open>type\<close> tags (\<open>"plan"\<close>, \<open>"summary"\<close>) carry no information once a value
  is typed and are left out.  Optional fields are \<open>option\<close>s.  Costs are numbers, and
  every sum below is made with \<open>numAdd\<close> in the order in which the source adds.
  Durations are millisecond counts.
\<close>

record ClaudeResult =
  result :: string
  sessionId :: string
  costUsd :: "number option"
  duration :: "nat option"
  isError :: bool

record WorkerTask =
  id' :: string
  description :: string
  prompt :: string
  dependsOn :: "string list option"

record WorkerResult =
  taskId :: string
  success :: bool
  result :: string
  costUsd :: "number option"
  duration :: "nat option"

record OrchestratorPlan =
  summary :: string
  workers :: "WorkerTask list"
  sequential :: bool

record WorkRequest =
  task' :: string
  context' :: string
  urgency :: string

record OrchestratorSummary =
  overallSuccess :: bool
  summary :: string
  workerResults :: "WorkerResult list"
  totalCostUsd :: number

text \<open>\<open>x || 0\<close> on an optional cost, and \<open>w.dependsOn || []\<close>.\<close>

definition orZero :: "number option \<Rightarrow> number" where
  "orZero c = (case c of None \<Rightarrow> Num 0 | Some x \<Rightarrow> if falsy x then Num 0 else x)"

definition deps :: "WorkerTask \<Rightarrow> string list" where
  "deps w = (case dependsOn w of None \<Rightarrow> [] | Some ds \<Rightarrow> ds)"

section \<open>Constants and small helpers of orchestrator.ts\<close>

definition MAX_WORKERS :: nat where "MAX_WORKERS = 10"
definition WORKER_TIMEOUT_MS :: nat where "WORKER_TIMEOUT_MS = 300000"
definition MAX_RESULT_CHARS :: nat where "MAX_RESULT_CHARS = 8000"

definition TRANSIENT_ERROR_PATTERNS :: "string list" where
  "TRANSIENT_ERROR_PATTERNS =
     [''rate limit'', ''429'', ''timed out'', ''timeout'', ''ECONNRESET'', ''ECONNREFUSED'',
      ''socket hang up'', ''network error'', ''overloaded'', ''503'', ''502'']"

definition isTransientError :: "string \<Rightarrow> bool" where
  "isTransientError errorMsg =
     (let lower = toLowerCase errorMsg
      in list_ex (\<lambda>p. includes' lower (toLowerCase p)) TRANSIENT_ERROR_PATTERNS)"

definition formatDuration :: "nat \<Rightarrow> string" where
  "formatDuration ms =
     (let seconds = ms div 1000 in
      if seconds < 60 then showNat seconds @ ''s''
      else let minutes = seconds div 60; remainingSec = seconds mod 60 in
        if minutes < 60
        then (if remainingSec > 0 then showNat minutes @ ''m '' @ showNat remainingSec @ ''s''
              else showNat minutes @ ''m'')
        else let hours = minutes div 60; remainingMin = minutes mod 60
             in showNat hours @ ''h '' @ showNat remainingMin @ ''m'')"

section \<open>One supervised worker run (executeWithMonitoring)\<close>

text \<open>
  The Worker Executor (\<open>WorkerAgent.execute\<close>) and the timers around it are the
  environment of the orchestrator.  One run of a worker is described by what the
  executor's promise did (\<open>Resolved\<close> with a Worker Result, or \<open>Rejected\<close> with the
  error's \<open>message\<close>, which may be undefined) and by which of the four places that
  call \<open>workerAbort.abort()\<close> had fired when the promise settled: the per-worker
  timeout, the stall detector, the controller stored in the registry (the external kill
  command), and the orchestration signal.  \<open>elapsed\<close> is \<open>Date.now() - startTime\<close>.
\<close>

datatype AgentOutcome = Resolved WorkerResult | Rejected "string option"

record WorkerRun =
  outcome :: AgentOutcome
  timeoutFired :: bool
  stallKilled :: bool
  killedViaRegistry :: bool
  orchAborted :: bool
  elapsed :: nat

definition workerAbortAborted :: "WorkerRun \<Rightarrow> bool" where
  "workerAbortAborted run =
     (timeoutFired run \<or> stallKilled run \<or> killedViaRegistry run \<or> orchAborted run)"

definition messageText :: "string option \<Rightarrow> string" where
  "messageText m = (case m of None \<Rightarrow> ''undefined'' | Some s \<Rightarrow> s)"

definition executeWithMonitoring :: "(WorkerTask \<Rightarrow> WorkerRun) \<Rightarrow> WorkerTask \<Rightarrow> WorkerResult" where
  "executeWithMonitoring worker task =
     (let run = worker task in
      case outcome run of
        Resolved r \<Rightarrow> r
      | Rejected msg \<Rightarrow>
          (let wasKilled = (workerAbortAborted run \<and> \<not> orchAborted run);
               wasTimedOut = (case msg of None \<Rightarrow> False | Some m \<Rightarrow> includes' m ''timed out'')
           in \<lparr> taskId = id' task,
                success = False,
                result = (if wasKilled then ''Worker killed by user''
                          else if wasTimedOut
                               then ''Worker timed out after '' @ formatDuration WORKER_TIMEOUT_MS
                               else ''Worker error: '' @ messageText msg),
                costUsd = None,
                duration = Some (elapsed run) \<rparr>))"

text \<open>
  \<open>executeWithRetry\<close> returns the result it resolves with, together with the list of
  the calls of \<open>executeWithMonitoring\<close> it made (the task passed and the result got),
  in order.
\<close>

type_synonym Attempt = "WorkerTask \<times> WorkerResult"

definition executeWithRetry ::
  "(WorkerTask \<Rightarrow> WorkerRun) \<Rightarrow> WorkerTask \<Rightarrow> WorkerResult \<times> Attempt list" where
  "executeWithRetry worker task =
     (let result1 = executeWithMonitoring worker task in
      if \<not> success result1 \<and> isTransientError (WorkerResult.result result1)
      then (let retryTask = task\<lparr> id' := id' task @ ''-retry'' \<rparr>;
                result2 = executeWithMonitoring worker retryTask
            in (result2, [(task, result1), (retryTask, result2)]))
      else (result1, [(task, result1)]))"

section \<open>Context injected into a worker's prompt\<close>

definition nl :: string where
  "nl = [CHR 0x0A]"

definition modeLabel :: "OrchestratorPlan \<Rightarrow> string" where
  "modeLabel plan = (if sequential plan then ''Sequential'' else ''Parallel'')"

definition planContextForWorkers :: "WorkRequest \<Rightarrow> OrchestratorPlan \<Rightarrow> string" where
  "planContextForWorkers workRequest plan =
     join nl
       ([''## Overall Plan Context'',
         ''Overall goal: '' @ task' workRequest,
         ''Plan summary: '' @ OrchestratorPlan.summary plan,
         ''Total workers: '' @ showNat (length (workers plan)) @ '' (''
            @ toLowerCase (modeLabel plan) @ '' execution)'',
         [],
         ''### All tasks in this plan:'']
        @ map (\<lambda>(i, w). showNat (i + 1) @ ''. ['' @ id' w @ ''] '' @ description w)
              (enumerate 0 (workers plan)))"

text \<open>
  A worker number is \<open>idx + 1\<close> in sequential mode and \<open>workerNumberMap.get(id)\<close> in
  parallel mode, hence possibly undefined for the language.
\<close>

definition showNumber :: "nat option \<Rightarrow> string" where
  "showNumber n = (case n of None \<Rightarrow> ''undefined'' | Some k \<Rightarrow> showNat k)"

definition truncated :: "WorkerResult \<Rightarrow> string" where
  "truncated pr =
     (if length (WorkerResult.result pr) > MAX_RESULT_CHARS
      then take MAX_RESULT_CHARS (WorkerResult.result pr) @ nl @ ''... (truncated, ''
           @ showNat (length (WorkerResult.result pr) - MAX_RESULT_CHARS) @ '' chars omitted)''
      else WorkerResult.result pr)"

definition priorResultLines :: "WorkerResult \<Rightarrow> string list" where
  "priorResultLines pr =
     [nl @ ''--- '' @ taskId pr @ '' ['' @ (if success pr then ''SUCCESS'' else ''FAILED'') @ ''] ---'',
      truncated pr]"

definition buildWorkerContextPrefix ::
  "string \<Rightarrow> nat \<Rightarrow> nat option \<Rightarrow> WorkerResult list \<Rightarrow> string" where
  "buildWorkerContextPrefix planContext totalWorkers number prior =
     join nl
       ([planContext,
         nl @ ''You are Worker #'' @ showNumber number @ '' of '' @ showNat totalWorkers @ ''.'']
        @ (if length prior > 0
           then [nl @ ''## Results from prior workers:'']
                @ concat (map priorResultLines prior)
                @ [nl @ ''Use the above results to inform your work. Do not repeat work already done.'']
           else []))"

definition augmentTask ::
  "string \<Rightarrow> nat \<Rightarrow> nat option \<Rightarrow> WorkerResult list \<Rightarrow> WorkerTask \<Rightarrow> WorkerTask" where
  "augmentTask planContext totalWorkers number prior t =
     t\<lparr> prompt := buildWorkerContextPrefix planContext totalWorkers number prior
                   @ nl @ nl @ ''---'' @ nl @ nl @ ''## Your specific task:'' @ nl @ prompt t \<rparr>"

section \<open>Phase 2: the local variables of execute and the two scheduling loops\<close>

text \<open>
  \<open>Locals\<close> holds the variables the execution phase mutates.  \<open>completed\<close> and
  \<open>remaining\<close> are JavaScript \<open>Set\<close>s (lists without repetition, in insertion order),
  \<open>resultMap\<close> is a \<open>Map\<close>; the three exist in the parallel branch only and the
  sequential loop never touches them.  \<open>history\<close> is not a variable of the source: it
  records, for every \<open>workerResults.push\<close>, the plan task of that loop iteration, its
  worker number, the prior results handed to \<open>buildWorkerContextPrefix\<close> for it, and
  the calls of \<open>executeWithMonitoring\<close> made for it.
\<close>

record Scheduled =
  planTask :: WorkerTask
  workerNumber :: "nat option"
  priorResults :: "WorkerResult list"
  attempts :: "Attempt list"

record Locals =
  workerResults' :: "WorkerResult list"
  completedCount :: nat
  failFastTriggered :: bool
  completed :: "string list"
  resultMap :: "string \<rightharpoonup> WorkerResult"
  remaining :: "string list"
  history :: "Scheduled list"

definition setAdd :: "string list \<Rightarrow> string \<Rightarrow> string list" where
  "setAdd xs x = (if x \<in> set xs then xs else xs @ [x])"

definition newSet :: "string list \<Rightarrow> string list" where
  "newSet xs = foldl setAdd [] xs"

definition initialLocals :: Locals where
  "initialLocals =
     \<lparr> workerResults' = [], completedCount = 0, failFastTriggered = False,
       completed = [], resultMap = Map.empty, remaining = [], history = [] \<rparr>"

subsection \<open>Sequential mode\<close>

text \<open>
  The \<open>for\<close> loop over \<open>plan.workers\<close>, from index \<open>idx\<close> with the tasks still ahead.
  \<open>aborted n\<close> is the value of \<open>effectiveSignal.aborted\<close> at the loop's check made when
  \<open>n\<close> workers have completed (there is exactly one check for each such \<open>n\<close>).
\<close>

definition seqBody ::
  "(WorkerTask \<Rightarrow> WorkerRun) \<Rightarrow> string \<Rightarrow> nat \<Rightarrow> nat \<Rightarrow> WorkerTask \<Rightarrow> Locals \<Rightarrow> Locals" where
  "seqBody worker planContext totalWorkers idx t st =
     (let number = Some (idx + 1);
          augmentedTask = augmentTask planContext totalWorkers number (workerResults' st) t;
          (res, calls) = executeWithRetry worker augmentedTask;
          st1 = st\<lparr> workerResults' := workerResults' st @ [res],
                    completedCount := completedCount st + 1,
                    history := history st @
                      [\<lparr> planTask = t, workerNumber = number,
                         priorResults = workerResults' st, attempts = calls \<rparr>] \<rparr>
      in if \<not> success res then st1\<lparr> failFastTriggered := True \<rparr> else st1)"

fun seqLoop ::
  "(WorkerTask \<Rightarrow> WorkerRun) \<Rightarrow> (nat \<Rightarrow> bool) \<Rightarrow> string \<Rightarrow> nat \<Rightarrow> nat \<Rightarrow> WorkerTask list
     \<Rightarrow> Locals \<Rightarrow> Locals" where
  "seqLoop worker aborted planContext totalWorkers idx [] st = st"
| "seqLoop worker aborted planContext totalWorkers idx (t # rest) st =
     (if aborted (completedCount st) \<or> failFastTriggered st then st
      else seqLoop worker aborted planContext totalWorkers (idx + 1) rest
             (seqBody worker planContext totalWorkers idx t st))"

subsection \<open>Parallel mode\<close>

text \<open>
  Here too \<open>aborted n\<close> is the value of \<open>effectiveSignal.aborted\<close> at the check made at
  the top of the \<open>while\<close> loop when \<open>n\<close> workers have completed; every round completes at
  least one worker, so there is one check for each such \<open>n\<close>.  The workers of a round run
  concurrently; their results are taken in the order of \<open>ready\<close>, as \<open>Promise.all\<close> gives
  them.
\<close>

definition workerNumberMap :: "WorkerTask list \<Rightarrow> (string \<rightharpoonup> nat)" where
  "workerNumberMap ws = foldl (\<lambda>m (i, w). m(id' w \<mapsto> i + 1)) Map.empty (enumerate 0 ws)"

definition readyWorkers :: "OrchestratorPlan \<Rightarrow> Locals \<Rightarrow> WorkerTask list" where
  "readyWorkers plan st =
     filter (\<lambda>w. id' w \<in> set (remaining st)
                 \<and> list_all (\<lambda>dep. dep \<in> set (completed st)) (deps w))
            (workers plan)"

definition depResults :: "Locals \<Rightarrow> WorkerTask \<Rightarrow> WorkerResult list" where
  "depResults st t = List.map_filter (resultMap st) (deps t)"

text \<open>
  The body of the loop that records the results of a round (one iteration per
  ready task, in the order of \<open>ready\<close>).
\<close>

definition recordResult :: "Locals \<Rightarrow> Scheduled \<times> WorkerResult \<Rightarrow> Locals" where
  "recordResult st sr =
     (case sr of (s, res) \<Rightarrow>
        st\<lparr> workerResults' := workerResults' st @ [res],
            resultMap := (resultMap st)(id' (planTask s) \<mapsto> res),
            completed := setAdd (completed st) (id' (planTask s)),
            remaining := removeAll (id' (planTask s)) (remaining st),
            completedCount := completedCount st + 1,
            history := history st @ [s] \<rparr>)"

text \<open>
  \<open>failedIds\<close> is \<open>results.filter((r) => !r.success).map((_, i) => ready[i].id)\<close>:
  the index \<open>i\<close> runs over the filtered array.
\<close>

definition failedIds :: "WorkerTask list \<Rightarrow> WorkerResult list \<Rightarrow> string list" where
  "failedIds ready results =
     map (\<lambda>i. id' (ready ! i)) [0 ..< length (filter (\<lambda>r. \<not> success r) results)]"

definition blockedWorkers :: "OrchestratorPlan \<Rightarrow> Locals \<Rightarrow> string list \<Rightarrow> WorkerTask list" where
  "blockedWorkers plan st failed =
     filter (\<lambda>w. id' w \<in> set (remaining st) \<and> list_ex (\<lambda>dep. dep \<in> set failed) (deps w))
            (workers plan)"

definition runReady ::
  "(WorkerTask \<Rightarrow> WorkerRun) \<Rightarrow> string \<Rightarrow> nat \<Rightarrow> OrchestratorPlan \<Rightarrow> Locals \<Rightarrow> WorkerTask
     \<Rightarrow> Scheduled \<times> WorkerResult" where
  "runReady worker planContext totalWorkers plan st t =
     (let number = workerNumberMap (workers plan) (id' t);
          prior = depResults st t;
          (res, calls) = executeWithRetry worker (augmentTask planContext totalWorkers number prior t)
      in (\<lparr> planTask = t, workerNumber = number, priorResults = prior, attempts = calls \<rparr>, res))"

definition parRound ::
  "(WorkerTask \<Rightarrow> WorkerRun) \<Rightarrow> string \<Rightarrow> nat \<Rightarrow> OrchestratorPlan \<Rightarrow> WorkerTask list
     \<Rightarrow> Locals \<Rightarrow> Locals" where
  "parRound worker planContext totalWorkers plan ready st =
     (let runs = map (runReady worker planContext totalWorkers plan st) ready;
          results = map snd runs;
          st1 = foldl recordResult st runs;
          batchHadFailure = list_ex (\<lambda>r. \<not> success r) results
      in if batchHadFailure \<and> blockedWorkers plan st1 (failedIds ready results) \<noteq> []
         then st1\<lparr> failFastTriggered := True \<rparr> else st1)"

subsection \<open>Termination of the parallel loop\<close>

lemma remaining_recordResult:
  "remaining (recordResult st sr) = removeAll (id' (planTask (fst sr))) (remaining st)"
  by (cases sr) (simp add: recordResult_def)

lemma filter_removeAll:
  "filter P (removeAll a xs) = filter (\<lambda>x. x \<noteq> a \<and> P x) xs"
  by (induction xs) auto

lemma remaining_foldl_recordResult:
  "remaining (foldl recordResult st runs) =
     filter (\<lambda>x. x \<notin> set (map (\<lambda>sr. id' (planTask (fst sr))) runs)) (remaining st)"
proof (induction runs arbitrary: st)
  case Nil
  show ?case by simp
next
  case (Cons sr runs)
  show ?case
    by (simp add: Cons.IH remaining_recordResult filter_removeAll)
qed

lemma planTask_runReady:
  "planTask (fst (runReady worker planContext totalWorkers plan st t)) = t"
  by (simp add: runReady_def Let_def split: prod.splits)

lemma remaining_parRound:
  "remaining (parRound worker planContext totalWorkers plan ready st) =
     filter (\<lambda>x. x \<notin> set (map id' ready)) (remaining st)"
proof -
  have "map (\<lambda>sr. id' (planTask (fst sr))) (map (runReady worker planContext totalWorkers plan st) ready)
          = map id' ready"
    by (simp add: planTask_runReady)
  then show ?thesis
    by (simp add: parRound_def Let_def remaining_foldl_recordResult)
qed

lemma readyWorkers_remaining:
  "w \<in> set (readyWorkers plan st) \<Longrightarrow> id' w \<in> set (remaining st)"
  by (simp add: readyWorkers_def)

lemma parRound_shrinks:
  assumes "readyWorkers plan st \<noteq> []"
  shows "length (remaining (parRound worker planContext totalWorkers plan (readyWorkers plan st) st))
           < length (remaining st)"
proof -
  from assms obtain w where w: "w \<in> set (readyWorkers plan st)"
    by (cases "readyWorkers plan st") auto
  then have "id' w \<in> set (remaining st)"
    by (rule readyWorkers_remaining)
  moreover from w have "id' w \<in> set (map id' (readyWorkers plan st))"
    by simp
  ultimately show ?thesis
    unfolding remaining_parRound by (intro length_filter_less [of "id' w"]) auto
qed

text \<open>
  The \<open>while (remaining.size > 0)\<close> loop.  Every round removes the ids of its ready
  tasks from \<open>remaining\<close>, at least one of them, so the loop ends.
\<close>

function parLoop ::
  "(WorkerTask \<Rightarrow> WorkerRun) \<Rightarrow> (nat \<Rightarrow> bool) \<Rightarrow> string \<Rightarrow> nat \<Rightarrow> OrchestratorPlan
     \<Rightarrow> Locals \<Rightarrow> Locals" where
  "parLoop worker aborted planContext totalWorkers plan st =
     (if remaining st = [] then st
      else if aborted (completedCount st) \<or> failFastTriggered st then st
      else if readyWorkers plan st = [] then st
      else parLoop worker aborted planContext totalWorkers plan
             (parRound worker planContext totalWorkers plan (readyWorkers plan st) st))"
  by pat_completeness auto
termination
  by (relation "measure (\<lambda>(worker, aborted, planContext, totalWorkers, plan, st). length (remaining st))")
     (auto simp: parRound_shrinks)

declare parLoop.simps [simp del]

section \<open>execute\<close>

text \<open>
  The environment of one call of \<open>execute\<close>: what the planning call of the Assistant
  Invoker did (\<open>Inl\<close> the message of the error it rejected with), the plan extraction
  \<open>parsePlan\<close> (its four strategies rest on \<open>JSON.parse\<close>; \<open>Inl\<close> is the message of the
  error it throws), the worker runs, the orchestration signal, what the summary call did,
  and \<open>Number.prototype.toFixed(4)\<close>.  The prompts sent to the assistant, the status
  updates, the log and the registry bookkeeping do not influence the returned value and
  are not modelled.
\<close>

record Env =
  planningCall :: "string + ClaudeResult"
  parsePlan :: "string \<Rightarrow> string + OrchestratorPlan"
  workerRun :: "WorkerTask \<Rightarrow> WorkerRun"
  signalAborted :: "nat \<Rightarrow> bool"
  summaryCall :: "string + ClaudeResult"
  toFixed4 :: "number \<Rightarrow> string"

datatype ExecOutcome = Threw string | Returned OrchestratorSummary

definition capWorkers :: "OrchestratorPlan \<Rightarrow> OrchestratorPlan" where
  "capWorkers plan =
     (if length (workers plan) > MAX_WORKERS
      then plan\<lparr> workers := take MAX_WORKERS (workers plan) \<rparr> else plan)"

definition runWorkers :: "Env \<Rightarrow> WorkRequest \<Rightarrow> OrchestratorPlan \<Rightarrow> Locals" where
  "runWorkers env workRequest plan =
     (let planContext = planContextForWorkers workRequest plan;
          totalWorkers = length (workers plan)
      in if sequential plan
         then seqLoop (workerRun env) (signalAborted env) planContext totalWorkers 0
                (workers plan) initialLocals
         else parLoop (workerRun env) (signalAborted env) planContext totalWorkers plan
                (initialLocals\<lparr> remaining := newSet (map id' (workers plan)) \<rparr>))"

definition workerCost :: "WorkerResult list \<Rightarrow> number" where
  "workerCost rs = foldl (\<lambda>sum r. numAdd sum (orZero (WorkerResult.costUsd r))) (Num 0) rs"

definition fallbackSummary :: "Env \<Rightarrow> WorkerResult list \<Rightarrow> number \<Rightarrow> string" where
  "fallbackSummary env rs totalCost =
     (let successes = length (filter (\<lambda>r. success r) rs);
          failures = length (filter (\<lambda>r. \<not> success r) rs)
      in ''Completed '' @ showNat successes @ '' task(s) successfully''
         @ (if failures > 0 then '', '' @ showNat failures @ '' failed'' else [])
         @ ''. Total cost: $'' @ toFixed4 env totalCost @ ''.'')"

definition summaryPhase :: "Env \<Rightarrow> ClaudeResult \<Rightarrow> WorkerResult list \<Rightarrow> OrchestratorSummary" where
  "summaryPhase env planResult rs =
     (let totalCost = numAdd (orZero (ClaudeResult.costUsd planResult)) (workerCost rs);
          (summaryText, summaryCost) =
             (case summaryCall env of
                Inr summaryResult \<Rightarrow>
                  (ClaudeResult.result summaryResult, orZero (ClaudeResult.costUsd summaryResult))
              | Inl err \<Rightarrow> (fallbackSummary env rs totalCost, Num 0));
          overall = (length rs > 0 \<and> list_all (\<lambda>r. success r) rs);
          finalCost = numAdd totalCost summaryCost
      in \<lparr> overallSuccess = overall, summary = summaryText,
           workerResults = rs, totalCostUsd = finalCost \<rparr>)"

definition execute :: "Env \<Rightarrow> WorkRequest \<Rightarrow> ExecOutcome" where
  "execute env workRequest =
     (case planningCall env of
        Inl err \<Rightarrow> Threw err
      | Inr planResult \<Rightarrow>
          (case parsePlan env (ClaudeResult.result planResult) of
             Inl msg \<Rightarrow>
               Returned \<lparr> overallSuccess = False,
                          summary = ''Planning failed: '' @ msg
                                    @ ''. The orchestrator did not produce a valid plan.'',
                          workerResults = [],
                          totalCostUsd = orZero (ClaudeResult.costUsd planResult) \<rparr>
           | Inr parsed \<Rightarrow>
               Returned (summaryPhase env planResult
                           (workerResults' (runWorkers env workRequest (capWorkers parsed))))))"

section \<open>Chat Agent: parseChatResponse\<close>

text \<open>
  \<open>JSON.parse\<close> is a parameter of the model (\<open>None\<close> when it throws); its values are
  \<open>json\<close>.  \<open>getProp\<close> is property access on a parsed value that is not \<open>null\<close>
  (\<open>None\<close> for undefined; on \<open>null\<close> the access throws, which \<open>parseAction\<close> handles
  as the source's \<open>catch\<close> does), \<open>truthy\<close> is the language's truthiness.  The action
  returned is the parsed object itself: the cast to Work Request does nothing at run time.
  \<open>matchBlock\<close> is \<open>text.match\<close> for a pattern \<open>opening([\s\S]*?)closing\<close>: the first
  occurrence of the opening tag that is followed by a closing tag, up to the first such
  closing tag; \<open>replaceBlock\<close> is \<open>replace\<close> of that match by the empty string.
\<close>

datatype json =
    JNull | JBool bool | JNum number | JStr string | JArr "json list" | JObj "(string \<times> json) list"

fun getProp :: "json \<Rightarrow> string \<Rightarrow> json option" where
  "getProp (JObj members) k = map_of members k"
| "getProp j k = None"

fun truthy :: "json option \<Rightarrow> bool" where
  "truthy None = False"
| "truthy (Some JNull) = False"
| "truthy (Some (JBool b)) = b"
| "truthy (Some (JNum n)) = (\<not> falsy n)"
| "truthy (Some (JStr s)) = (s \<noteq> [])"
| "truthy (Some (JArr xs)) = True"
| "truthy (Some (JObj members)) = True"

fun splitAtFirst :: "string \<Rightarrow> string \<Rightarrow> (string \<times> string) option" where
  "splitAtFirst p [] = (if p = [] then Some ([], []) else None)"
| "splitAtFirst p (c # s) =
     (if startsWith (c # s) p then Some ([], drop (length p) (c # s))
      else map_option (\<lambda>(a, b). (c # a, b)) (splitAtFirst p s))"

definition matchBlock :: "string \<Rightarrow> string \<Rightarrow> string \<Rightarrow> (string \<times> string \<times> string) option" where
  "matchBlock opening closing text =
     (case splitAtFirst opening text of
        None \<Rightarrow> None
      | Some (before, rest) \<Rightarrow>
          (case splitAtFirst closing rest of
             None \<Rightarrow> None
           | Some (inner, after) \<Rightarrow> Some (before, inner, after)))"

definition replaceBlock :: "string \<Rightarrow> string \<Rightarrow> string \<Rightarrow> string" where
  "replaceBlock opening closing text =
     (case matchBlock opening closing text of
        None \<Rightarrow> text
      | Some (before, inner, after) \<Rightarrow> before @ after)"

definition ACTION_OPEN :: string where "ACTION_OPEN = ''<RUMPBOT_ACTION>''"
definition ACTION_CLOSE :: string where "ACTION_CLOSE = ''</RUMPBOT_ACTION>''"
definition MEMORY_OPEN :: string where "MEMORY_OPEN = ''<TIFFBOT_MEMORY>''"
definition MEMORY_CLOSE :: string where "MEMORY_CLOSE = ''</TIFFBOT_MEMORY>''"

record ParsedChatResponse =
  chatText :: string
  action :: "json option"
  memoryNote :: "string option"

definition parseAction :: "(string \<Rightarrow> json option) \<Rightarrow> string \<Rightarrow> json option" where
  "parseAction jsonParse inner =
     (case jsonParse (trim inner) of
        None \<Rightarrow> None
      | Some JNull \<Rightarrow> None
      | Some parsed \<Rightarrow>
          (if getProp parsed ''type'' = Some (JStr ''work_request'') \<and> truthy (getProp parsed ''task'')
           then Some parsed else None))"

definition parseChatResponse :: "(string \<Rightarrow> json option) \<Rightarrow> string \<Rightarrow> ParsedChatResponse" where
  "parseChatResponse jsonParse text =
     (let actionMatch = matchBlock ACTION_OPEN ACTION_CLOSE text;
          act = (case actionMatch of
                   None \<Rightarrow> None
                 | Some (before, inner, after) \<Rightarrow> parseAction jsonParse inner);
          memoryMatch = matchBlock MEMORY_OPEN MEMORY_CLOSE text;
          note = (case memoryMatch of
                    None \<Rightarrow> None
                  | Some (before, inner, after) \<Rightarrow> Some (trim inner));
          stripped = trim (replaceBlock MEMORY_OPEN MEMORY_CLOSE
                             (replaceBlock ACTION_OPEN ACTION_CLOSE text))
      in \<lparr> chatText = (if stripped = [] then ''Working on it...'' else stripped),
           action = act, memoryNote = note \<rparr>)"

text \<open>\<open>containsDelimiter\<close> says that one of the four tags occurs in a text.\<close>

definition containsDelimiter :: "string \<Rightarrow> bool" where
  "containsDelimiter s =
     list_ex (includes' s) [ACTION_OPEN, ACTION_CLOSE, MEMORY_OPEN, MEMORY_CLOSE]"

section \<open>Properties of the worker runs recorded in the history\<close>

text \<open>
  \<open>entryOf\<close> relates a history entry to the Worker Result pushed with it: the result and
  the recorded attempts are what \<open>executeWithRetry\<close> gave for the plan task, with the
  prompt prefixed by the context built from the entry's prior results.
\<close>

definition entryOf ::
  "(WorkerTask \<Rightarrow> WorkerRun) \<Rightarrow> string \<Rightarrow> nat \<Rightarrow> Scheduled \<Rightarrow> WorkerResult \<Rightarrow> bool" where
  "entryOf worker planContext totalWorkers h r =
     (executeWithRetry worker
        (augmentTask planContext totalWorkers (workerNumber h) (priorResults h) (planTask h))
      = (r, attempts h))"

text \<open>
  The reading of the sentence of the specification: the planning call's cost, plus the
  cost of every call of \<open>executeWithMonitoring\<close> made during the run, plus the summary
  call's cost, a missing cost counting as 0.
\<close>

definition everyAttemptCost :: "Env \<Rightarrow> ClaudeResult \<Rightarrow> Locals \<Rightarrow> number" where
  "everyAttemptCost env planResult st =
     numAdd
       (numAdd (orZero (ClaudeResult.costUsd planResult))
          (foldl (\<lambda>sum a. numAdd sum (orZero (WorkerResult.costUsd (snd a)))) (Num 0)
             (concat (map attempts (history st)))))
       (case summaryCall env of Inl err \<Rightarrow> Num 0
        | Inr summaryResult \<Rightarrow> orZero (ClaudeResult.costUsd summaryResult))"

text \<open>
  \<open>recorded\<close> pairs the id of the plan task of every history entry with the Worker
  Result pushed for it.  \<open>parInv\<close> is the invariant of the parallel loop: every completed
  id has an entry in \<open>resultMap\<close>, every entry of \<open>resultMap\<close> is a recorded pair, and the
  prior results handed to a scheduled worker are, dependency by dependency, pairs
  recorded before it.
\<close>

definition recorded :: "Locals \<Rightarrow> (string \<times> WorkerResult) list" where
  "recorded st = zip (map (\<lambda>h. id' (planTask h)) (history st)) (workerResults' st)"

definition parInv :: "Locals \<Rightarrow> bool" where
  "parInv st =
     (length (history st) = length (workerResults' st) \<and>
      (\<forall>d \<in> set (completed st). resultMap st d \<noteq> None) \<and>
      (\<forall>d r. resultMap st d = Some r \<longrightarrow> (d, r) \<in> set (recorded st)) \<and>
      (\<forall>n < length (history st).
          list_all2 (\<lambda>d r. (d, r) \<in> set (take n (recorded st)))
            (deps (planTask (history st ! n))) (priorResults (history st ! n))))"

definition remainingNotRun :: "Locals \<Rightarrow> bool" where
  "remainingNotRun st = list_all (\<lambda>h. id' (planTask h) \<notin> set (remaining st)) (history st)"

text \<open>
  Notions used to state the fail-fast claims for the parallel loop.  \<open>roundResults\<close> are
  the results of a round, in the order of its ready tasks; \<open>failedInRound\<close> are the ids
  of the tasks of the round whose result has \<open>success = false\<close>; \<open>failuresFirst\<close> says
  that no failed result comes after a successful one in that order.  \<open>dependsDirectly\<close>
  holds when a plan worker with the first id lists the second in its \<open>dependsOn\<close>, and
  \<open>dependsTransitively\<close> is its transitive closure.  \<open>scheduling\<close> holds of the states
  in which the \<open>while\<close> loop is entered: the initial one, and the one after each round
  that the loop runs.  \<open>schedInv\<close> is the invariant of these states used below.
\<close>

definition roundResults ::
  "(WorkerTask \<Rightarrow> WorkerRun) \<Rightarrow> string \<Rightarrow> nat \<Rightarrow> OrchestratorPlan \<Rightarrow> WorkerTask list
     \<Rightarrow> Locals \<Rightarrow> WorkerResult list" where
  "roundResults worker planContext totalWorkers plan ready st =
     map (\<lambda>t. snd (runReady worker planContext totalWorkers plan st t)) ready"

definition failedInRound :: "WorkerTask list \<Rightarrow> WorkerResult list \<Rightarrow> string list" where
  "failedInRound ready results =
     map (\<lambda>p. id' (fst p)) (filter (\<lambda>p. \<not> success (snd p)) (zip ready results))"

definition failuresFirst :: "WorkerResult list \<Rightarrow> bool" where
  "failuresFirst results =
     (filter (\<lambda>r. \<not> success r) results = takeWhile (\<lambda>r. \<not> success r) results)"

definition dependsDirectly :: "OrchestratorPlan \<Rightarrow> string \<Rightarrow> string \<Rightarrow> bool" where
  "dependsDirectly plan x d = list_ex (\<lambda>w. id' w = x \<and> d \<in> set (deps w)) (workers plan)"

definition dependsTransitively :: "OrchestratorPlan \<Rightarrow> string \<Rightarrow> string \<Rightarrow> bool" where
  "dependsTransitively plan x d = (dependsDirectly plan)\<^sup>+\<^sup>+ x d"

inductive scheduling ::
  "(WorkerTask \<Rightarrow> WorkerRun) \<Rightarrow> (nat \<Rightarrow> bool) \<Rightarrow> string \<Rightarrow> nat \<Rightarrow> OrchestratorPlan \<Rightarrow> Locals \<Rightarrow> bool"
  for worker aborted planContext totalWorkers plan where
  start: "scheduling worker aborted planContext totalWorkers plan
            (initialLocals\<lparr> remaining := newSet (map id' (workers plan)) \<rparr>)"
| round: "scheduling worker aborted planContext totalWorkers plan st
          \<Longrightarrow> remaining st \<noteq> [] \<Longrightarrow> \<not> aborted (completedCount st) \<Longrightarrow> \<not> failFastTriggered st
          \<Longrightarrow> readyWorkers plan st \<noteq> []
          \<Longrightarrow> scheduling worker aborted planContext totalWorkers plan
                (parRound worker planContext totalWorkers plan (readyWorkers plan st) st)"

definition schedInv :: "OrchestratorPlan \<Rightarrow> Locals \<Rightarrow> bool" where
  "schedInv plan st =
     (set (remaining st) \<inter> set (completed st) = {} \<and>
      (\<forall>w \<in> set (workers plan).
          id' w \<in> set (remaining st)
          \<or> (id' w \<in> set (completed st) \<and> set (deps w) \<subseteq> set (completed st))))"

text \<open>
  Notions used to state in which round a worker is started.  \<open>completedRecorded\<close> says
  that every id in \<open>completed\<close> is the id of a worker whose result has been pushed.
  \<open>startedInRound\<close> relates position \<open>n\<close> of the final history to a state \<open>s\<close> in which the
  loop started a round: the worker at \<open>n\<close> is among the ready workers of \<open>s\<close>, and the
  results present in \<open>s\<close> are the first ones of the final list, all before \<open>n\<close>.
  \<open>roundInv\<close> is the invariant that every position has such a state.
\<close>

definition completedRecorded :: "Locals \<Rightarrow> bool" where
  "completedRecorded s =
     (length (workerResults' s) = length (history s) \<and>
      (\<forall>d \<in> set (completed s). \<exists>i < length (history s). id' (planTask (history s ! i)) = d))"

definition startedInRound ::
  "(WorkerTask \<Rightarrow> WorkerRun) \<Rightarrow> (nat \<Rightarrow> bool) \<Rightarrow> string \<Rightarrow> nat \<Rightarrow> OrchestratorPlan
     \<Rightarrow> Locals \<Rightarrow> nat \<Rightarrow> Locals \<Rightarrow> bool" where
  "startedInRound worker aborted pc tw plan st n s =
     (scheduling worker aborted pc tw plan s
      \<and> planTask (history st ! n) \<in> set (readyWorkers plan s)
      \<and> length (history s) \<le> n
      \<and> history s = take (length (history s)) (history st)
      \<and> workerResults' s = take (length (history s)) (workerResults' st))"

definition roundInv ::
  "(WorkerTask \<Rightarrow> WorkerRun) \<Rightarrow> (nat \<Rightarrow> bool) \<Rightarrow> string \<Rightarrow> nat \<Rightarrow> OrchestratorPlan \<Rightarrow> Locals \<Rightarrow> bool" where
  "roundInv worker aborted pc tw plan st =
     (scheduling worker aborted pc tw plan st
      \<and> (\<forall>n < length (history st). \<exists>s. startedInRound worker aborted pc tw plan st n s))"

section \<open>Concrete runs used to exercise the theorems\<close>

definition exTask :: "string \<Rightarrow> string list option \<Rightarrow> WorkerTask" where
  "exTask i ds = \<lparr> id' = i, description = ''step '' @ i, prompt = ''do '' @ i, dependsOn = ds \<rparr>"

definition exResult :: "string \<Rightarrow> bool \<Rightarrow> string \<Rightarrow> rat \<Rightarrow> WorkerResult" where
  "exResult i ok txt cost =
     \<lparr> taskId = i, success = ok, result = txt, costUsd = Some (Num cost), duration = Some 1000 \<rparr>"

definition exResolved :: "WorkerResult \<Rightarrow> WorkerRun" where
  "exResolved r =
     \<lparr> outcome = Resolved r, timeoutFired = False, stallKilled = False,
       killedViaRegistry = False, orchAborted = False, elapsed = 1000 \<rparr>"

definition exClaude :: "string \<Rightarrow> rat \<Rightarrow> ClaudeResult" where
  "exClaude txt cost =
     \<lparr> ClaudeResult.result = txt, sessionId = ''s'', ClaudeResult.costUsd = Some (Num cost),
       ClaudeResult.duration = Some 10, isError = False \<rparr>"

definition exEnv :: "OrchestratorPlan \<Rightarrow> (WorkerTask \<Rightarrow> WorkerRun) \<Rightarrow> Env" where
  "exEnv plan w =
     \<lparr> planningCall = Inr (exClaude ''plan'' 3),
       parsePlan = (\<lambda>raw. Inr plan),
       workerRun = w,
       signalAborted = (\<lambda>n. False),
       summaryCall = Inr (exClaude ''All done.'' 4),
       toFixed4 = (\<lambda>c. ''0.0000'') \<rparr>"

definition exRequest :: WorkRequest where
  "exRequest = \<lparr> task' = ''fix the build'', context' = [], urgency = ''normal'' \<rparr>"

definition exAllOk :: "WorkerTask \<Rightarrow> WorkerRun" where
  "exAllOk t = exResolved (exResult (id' t) True ''done'' 2)"

definition exFailing :: "string \<Rightarrow> WorkerTask \<Rightarrow> WorkerRun" where
  "exFailing bad t =
     (if id' t = bad then exResolved (exResult (id' t) False ''compile error'' 1)
      else exResolved (exResult (id' t) True ''done'' 2))"

definition exSeqPlan1 :: OrchestratorPlan where
  "exSeqPlan1 =
     \<lparr> OrchestratorPlan.summary = ''one step'', workers = [exTask ''A'' None], sequential = True \<rparr>"

definition exSeqPlan3 :: OrchestratorPlan where
  "exSeqPlan3 =
     \<lparr> OrchestratorPlan.summary = ''three steps'',
       workers = [exTask ''A'' None, exTask ''B'' None, exTask ''C'' None],
       sequential = True \<rparr>"

definition exTransient :: "WorkerTask \<Rightarrow> WorkerRun" where
  "exTransient t =
     (if id' t = ''A'' then exResolved (exResult (id' t) False ''Error: 429 rate limit'' 1)
      else exResolved (exResult (id' t) True ''done'' 2))"

definition exSuccess429 :: "WorkerTask \<Rightarrow> WorkerRun" where
  "exSuccess429 t = exResolved (exResult (id' t) True ''handled the 429 case'' 2)"

definition exParPlan :: OrchestratorPlan where
  "exParPlan =
     \<lparr> OrchestratorPlan.summary = ''diamond'',
       workers = [exTask ''A'' None, exTask ''B'' (Some [''A'']), exTask ''C'' (Some [''A'']),
                  exTask ''D'' (Some [''B'', ''C''])],
       sequential = False \<rparr>"

definition exEcho :: "WorkerTask \<Rightarrow> WorkerRun" where
  "exEcho t = exResolved (exResult (id' t) True (''output of '' @ id' t) 2)"

definition exPromptD :: string where
  "exPromptD =
     planContextForWorkers exRequest exParPlan @ nl @ nl @ ''You are Worker #4 of 4.''
     @ nl @ nl @ ''## Results from prior workers:''
     @ nl @ nl @ ''--- B [SUCCESS] ---'' @ nl @ ''output of B''
     @ nl @ nl @ ''--- C [SUCCESS] ---'' @ nl @ ''output of C''
     @ nl @ nl @ ''Use the above results to inform your work. Do not repeat work already done.''
     @ nl @ nl @ ''---'' @ nl @ nl @ ''## Your specific task:'' @ nl @ ''do D''"

definition exDeadlockPlan :: OrchestratorPlan where
  "exDeadlockPlan =
     \<lparr> OrchestratorPlan.summary = ''missing dependency'',
       workers = [exTask ''A'' None, exTask ''B'' (Some [''missing''])],
       sequential = False \<rparr>"

definition exSkipPlan :: OrchestratorPlan where
  "exSkipPlan =
     \<lparr> OrchestratorPlan.summary = ''two chains'',
       workers = [exTask ''A'' None, exTask ''B'' None, exTask ''C'' (Some [''A'']),
                  exTask ''D'' (Some [''B''])],
       sequential = False \<rparr>"

definition exSkipStart :: Locals where
  "exSkipStart = initialLocals\<lparr> remaining := newSet (map id' (workers exSkipPlan)) \<rparr>"

definition exSlipPlan :: OrchestratorPlan where
  "exSlipPlan =
     \<lparr> OrchestratorPlan.summary = ''second of two fails'',
       workers = [exTask ''A'' None, exTask ''B'' None, exTask ''C'' (Some [''B''])],
       sequential = False \<rparr>"

definition exActionJson :: string where
  \<open>exActionJson = ''{"type":"work_request","task":"fix the build","context":"","urgency":"normal"}''\<close>

definition exActionObj :: json where
  "exActionObj =
     JObj [(''type'', JStr ''work_request''), (''task'', JStr ''fix the build''),
           (''context'', JStr []), (''urgency'', JStr ''normal'')]"

definition exJsonParse :: "string \<Rightarrow> json option" where
  "exJsonParse s = (if s = exActionJson then Some exActionObj else None)"

definition exReply :: string where
  "exReply = ''a < b, noted. '' @ MEMORY_OPEN @ ''likes tabs'' @ MEMORY_CLOSE @ '' On it! ''
             @ ACTION_OPEN @ exActionJson @ ACTION_CLOSE"

lemmas ex_defs =
  exEnv_def exClaude_def exRequest_def exTask_def exResult_def exResolved_def exAllOk_def
  exFailing_def

lemma floor_rat_numeral: "\<lfloor>(numeral a / numeral b :: rat)\<rfloor> = numeral a div numeral b"
  using floor_divide_of_int_eq [of "numeral a" "numeral b", where ?'a = rat] by simp

lemma ceiling_rat_numeral: "\<lceil>(numeral a / numeral b :: rat)\<rceil> = - (- numeral a div numeral b)"
  using ceiling_divide_eq_div [of "numeral a" "numeral b", where ?'a = rat] by simp

lemmas num_eval =
  roundNumber_def roundMagnitude_def floorLog2_def ilog2.simps roundHalfEven_def pow2_def Let_def
  floor_rat_numeral ceiling_rat_numeral

lemma ex_sums:
  "roundNumber 0 = Num 0"
  "roundNumber 1 = Num 1"
  "roundNumber 2 = Num 2"
  "roundNumber 3 = Num 3"
  "roundNumber 4 = Num 4"
  "roundNumber 5 = Num 5"
  "roundNumber 6 = Num 6"
  "roundNumber 9 = Num 9"
  "roundNumber 10 = Num 10"
  by (simp_all add: num_eval)

lemmas run_defs =
  execute_def capWorkers_def MAX_WORKERS_def runWorkers_def initialLocals_def seqBody_def
  executeWithRetry_def executeWithMonitoring_def summaryPhase_def workerCost_def orZero_def
  falsy_def numAdd_def canonical_def ex_sums Let_def

lemmas par_defs =
  parRound_def runReady_def recordResult_def readyWorkers_def depResults_def deps_def
  workerNumberMap_def newSet_def setAdd_def failedIds_def blockedWorkers_def

section \<open>Basic facts\<close>

lemma exEnv_sel:
  "planningCall (exEnv p w) = Inr (exClaude ''plan'' 3)"
  "parsePlan (exEnv p w) raw = Inr p"
  "workerRun (exEnv p w) = w"
  "signalAborted (exEnv p w) n = False"
  "summaryCall (exEnv p w) = Inr (exClaude ''All done.'' 4)"
  by (simp_all add: exEnv_def)

lemma id'_augmentTask [simp]:
  "id' (augmentTask planContext totalWorkers number prior t) = id' t"
  by (simp add: augmentTask_def)

lemma dependsOn_augmentTask [simp]:
  "dependsOn (augmentTask planContext totalWorkers number prior t) = dependsOn t"
  by (simp add: augmentTask_def)

lemma description_augmentTask [simp]:
  "description (augmentTask planContext totalWorkers number prior t) = description t"
  by (simp add: augmentTask_def)

lemma exSeqPlan1_run:
  "execute (exEnv exSeqPlan1 exAllOk) exRequest =
     Returned \<lparr> overallSuccess = True, summary = ''All done.'',
                workerResults = [exResult ''A'' True ''done'' 2], totalCostUsd = Num 9 \<rparr>"
  by (simp add: run_defs ex_defs exSeqPlan1_def)

section \<open>Invariants of the sequential loop\<close>

lemma seqBody_results:
  "workerResults' (seqBody worker pc tw idx t st) =
     workerResults' st @ [fst (executeWithRetry worker (augmentTask pc tw (Some (idx + 1)) (workerResults' st) t))]"
  by (simp add: seqBody_def Let_def split: prod.splits)

lemma seqBody_history:
  "history (seqBody worker pc tw idx t st) =
     history st @ [\<lparr> planTask = t, workerNumber = Some (idx + 1), priorResults = workerResults' st,
        attempts = snd (executeWithRetry worker (augmentTask pc tw (Some (idx + 1)) (workerResults' st) t)) \<rparr>]"
  by (simp add: seqBody_def Let_def split: prod.splits)

lemma seqBody_failFast:
  "failFastTriggered (seqBody worker pc tw idx t st) =
     (failFastTriggered st \<or> \<not> success (last (workerResults' (seqBody worker pc tw idx t st))))"
  by (simp add: seqBody_def Let_def split: prod.splits)

lemma seqBody_entries:
  assumes "list_all2 (entryOf worker pc tw) (history st) (workerResults' st)"
  shows "list_all2 (entryOf worker pc tw) (history (seqBody worker pc tw idx t st))
           (workerResults' (seqBody worker pc tw idx t st))"
  unfolding seqBody_results seqBody_history
  by (intro list_all2_appendI assms) (simp add: entryOf_def)

lemma seqLoop_entries:
  assumes "list_all2 (entryOf worker pc tw) (history st) (workerResults' st)"
  shows "list_all2 (entryOf worker pc tw) (history (seqLoop worker aborted pc tw idx rest st))
           (workerResults' (seqLoop worker aborted pc tw idx rest st))"
  using assms
proof (induction rest arbitrary: idx st)
  case Nil
  then show ?case by simp
next
  case (Cons t rest)
  then show ?case by (simp add: seqBody_entries)
qed

definition failFastInv :: "Locals \<Rightarrow> bool" where
  "failFastInv st =
     (list_all success (butlast (workerResults' st)) \<and>
      (failFastTriggered st \<longleftrightarrow> (workerResults' st \<noteq> [] \<and> \<not> success (last (workerResults' st)))))"

lemma seqBody_failFastInv:
  assumes "failFastInv st" "\<not> failFastTriggered st"
  shows "failFastInv (seqBody worker pc tw idx t st)"
proof -
  from assms have "list_all success (workerResults' st)"
    by (cases "workerResults' st" rule: rev_cases) (auto simp: failFastInv_def)
  then show ?thesis using assms(2)
    by (simp add: failFastInv_def seqBody_failFast) (simp add: seqBody_results)
qed

lemma seqLoop_failFastInv:
  assumes "failFastInv st"
  shows "failFastInv (seqLoop worker aborted pc tw idx rest st)"
  using assms
proof (induction rest arbitrary: idx st)
  case Nil
  then show ?case by simp
next
  case (Cons t rest)
  then show ?case by (simp add: seqBody_failFastInv)
qed

lemma seqLoop_planTasks:
  "\<exists>k. map planTask (history (seqLoop worker aborted pc tw idx rest st)) =
         map planTask (history st) @ take k rest"
proof (induction rest arbitrary: idx st)
  case Nil
  then show ?case by simp
next
  case (Cons t rest)
  show ?case
  proof (cases "aborted (completedCount st) \<or> failFastTriggered st")
    case True
    then have "map planTask (history (seqLoop worker aborted pc tw idx (t # rest) st)) =
         map planTask (history st) @ take 0 (t # rest)" by simp
    then show ?thesis by blast
  next
    case False
    from Cons [of "idx + 1" "seqBody worker pc tw idx t st"] obtain k where
      "map planTask (history (seqLoop worker aborted pc tw (idx + 1) rest (seqBody worker pc tw idx t st))) =
         map planTask (history (seqBody worker pc tw idx t st)) @ take k rest" by blast
    with False have "map planTask (history (seqLoop worker aborted pc tw idx (t # rest) st)) =
         map planTask (history st) @ take (Suc k) (t # rest)"
      by (simp add: seqBody_history)
    then show ?thesis by blast
  qed
qed

section \<open>Invariants of the parallel loop\<close>

lemma parLoop_stop:
  "remaining st = [] \<or> aborted (completedCount st) \<or> failFastTriggered st \<or> readyWorkers plan st = []
     \<Longrightarrow> parLoop worker aborted pc tw plan st = st"
  by (subst parLoop.simps) auto

lemma parLoop_step:
  "remaining st \<noteq> [] \<Longrightarrow> \<not> aborted (completedCount st) \<Longrightarrow> \<not> failFastTriggered st
     \<Longrightarrow> readyWorkers plan st \<noteq> []
     \<Longrightarrow> parLoop worker aborted pc tw plan st =
         parLoop worker aborted pc tw plan (parRound worker pc tw plan (readyWorkers plan st) st)"
  by (subst parLoop.simps) simp

lemma parLoop_induct_inv:
  assumes "P st"
    and "\<And>s. P s \<Longrightarrow> remaining s \<noteq> [] \<Longrightarrow> \<not> aborted (completedCount s) \<Longrightarrow> \<not> failFastTriggered s
           \<Longrightarrow> readyWorkers plan s \<noteq> []
           \<Longrightarrow> P (parRound worker pc tw plan (readyWorkers plan s) s)"
  shows "P (parLoop worker aborted pc tw plan st)"
  using assms(1)
proof (induction "length (remaining st)" arbitrary: st rule: less_induct)
  case less
  show ?case
  proof (cases "remaining st = [] \<or> aborted (completedCount st) \<or> failFastTriggered st
                 \<or> readyWorkers plan st = []")
    case True
    then show ?thesis using less.prems by (simp only: parLoop_stop)
  next
    case False
    then have stp: "remaining st \<noteq> []" "\<not> aborted (completedCount st)" "\<not> failFastTriggered st"
      "readyWorkers plan st \<noteq> []" by auto
    then have "P (parRound worker pc tw plan (readyWorkers plan st) st)"
      using less.prems assms(2) by blast
    then have "P (parLoop worker aborted pc tw plan
                   (parRound worker pc tw plan (readyWorkers plan st) st))"
      using less.hyps parRound_shrinks [OF stp(4)] by blast
    moreover have "parLoop worker aborted pc tw plan st =
        parLoop worker aborted pc tw plan (parRound worker pc tw plan (readyWorkers plan st) st)"
      using stp by (rule parLoop_step)
    ultimately show ?thesis by simp
  qed
qed

lemma foldl_recordResult_results:
  "workerResults' (foldl recordResult st runs) = workerResults' st @ map snd runs"
  by (induction runs arbitrary: st) (auto simp: recordResult_def split: prod.splits)

lemma foldl_recordResult_history:
  "history (foldl recordResult st runs) = history st @ map fst runs"
  by (induction runs arbitrary: st) (auto simp: recordResult_def split: prod.splits)

lemma foldl_recordResult_failFast:
  "failFastTriggered (foldl recordResult st runs) = failFastTriggered st"
  by (induction runs arbitrary: st) (auto simp: recordResult_def split: prod.splits)

lemma foldl_recordResult_completed:
  "set (completed (foldl recordResult st runs)) =
     set (completed st) \<union> set (map (\<lambda>sr. id' (planTask (fst sr))) runs)"
  by (induction runs arbitrary: st) (auto simp: recordResult_def setAdd_def split: prod.splits)

lemma foldl_recordResult_resultMap:
  "resultMap (foldl recordResult st runs) =
     resultMap st ++ map_of (rev (map (\<lambda>sr. (id' (planTask (fst sr)), snd sr)) runs))"
  by (induction runs arbitrary: st) (auto simp: recordResult_def split: prod.splits)

lemma parRound_results:
  "workerResults' (parRound worker pc tw plan ready st) =
     workerResults' st @ map (\<lambda>t. snd (runReady worker pc tw plan st t)) ready"
  by (simp add: parRound_def Let_def foldl_recordResult_results comp_def)

lemma parRound_history:
  "history (parRound worker pc tw plan ready st) =
     history st @ map (\<lambda>t. fst (runReady worker pc tw plan st t)) ready"
  by (simp add: parRound_def Let_def foldl_recordResult_history comp_def)

lemma parRound_completed:
  "set (completed (parRound worker pc tw plan ready st)) = set (completed st) \<union> set (map id' ready)"
  by (simp add: parRound_def Let_def foldl_recordResult_completed comp_def planTask_runReady)

lemma parRound_resultMap:
  "resultMap (parRound worker pc tw plan ready st) =
     resultMap st ++ map_of (rev (map (\<lambda>t. (id' t, snd (runReady worker pc tw plan st t))) ready))"
  by (simp add: parRound_def Let_def foldl_recordResult_resultMap comp_def planTask_runReady)

lemma runReady_entryOf:
  "entryOf worker pc tw (fst (runReady worker pc tw plan st t)) (snd (runReady worker pc tw plan st t))"
  by (simp add: runReady_def entryOf_def Let_def split: prod.splits)

lemma parRound_entries:
  assumes "list_all2 (entryOf worker pc tw) (history st) (workerResults' st)"
  shows "list_all2 (entryOf worker pc tw) (history (parRound worker pc tw plan ready st))
           (workerResults' (parRound worker pc tw plan ready st))"
  unfolding parRound_results parRound_history
  by (intro list_all2_appendI assms) (simp add: list_all2_map1 list_all2_map2 list_all2_same runReady_entryOf)

lemma parLoop_entries:
  assumes "list_all2 (entryOf worker pc tw) (history st) (workerResults' st)"
  shows "list_all2 (entryOf worker pc tw) (history (parLoop worker aborted pc tw plan st))
           (workerResults' (parLoop worker aborted pc tw plan st))"
  by (rule parLoop_induct_inv [where P = "\<lambda>s. list_all2 (entryOf worker pc tw) (history s) (workerResults' s)"])
     (simp_all add: assms parRound_entries)

section \<open>Every history entry is a run of executeWithRetry\<close>

lemma initial_entries:
  "list_all2 (entryOf worker pc tw) (history initialLocals) (workerResults' initialLocals)"
  by (simp add: initialLocals_def)

lemma runWorkers_entries:
  "list_all2 (entryOf (workerRun env) (planContextForWorkers workRequest plan) (length (workers plan)))
     (history (runWorkers env workRequest plan)) (workerResults' (runWorkers env workRequest plan))"
  by (simp add: runWorkers_def Let_def seqLoop_entries parLoop_entries initialLocals_def)

lemma entryOf_cases:
  assumes "entryOf worker pc tw h r"
    and "t = augmentTask pc tw (workerNumber h) (priorResults h) (planTask h)"
  shows "if \<not> success (executeWithMonitoring worker t)
            \<and> isTransientError (WorkerResult.result (executeWithMonitoring worker t))
         then attempts h = [(t, executeWithMonitoring worker t),
                            (t\<lparr> id' := id' t @ ''-retry'' \<rparr>,
                             executeWithMonitoring worker (t\<lparr> id' := id' t @ ''-retry'' \<rparr>))]
              \<and> r = executeWithMonitoring worker (t\<lparr> id' := id' t @ ''-retry'' \<rparr>)
         else attempts h = [(t, executeWithMonitoring worker t)] \<and> r = executeWithMonitoring worker t"
  using assms by (auto simp: entryOf_def executeWithRetry_def Let_def split: if_splits)

lemma entryOf_last:
  assumes "entryOf worker pc tw h r"
  shows "r = snd (last (attempts h))"
proof -
  let ?run = "executeWithRetry worker (augmentTask pc tw (workerNumber h) (priorResults h) (planTask h))"
  from assms have "r = fst ?run" "attempts h = snd ?run"
    by (simp_all add: entryOf_def)
  then show ?thesis
    by (simp add: executeWithRetry_def Let_def)
qed

lemma ex_transient_texts:
  "isTransientError ''Error: 429 rate limit''"
  "isTransientError ''handled the 429 case''"
  "\<not> isTransientError ''done''"
  "\<not> isTransientError ''compile error''"
  by code_simp+

lemma exTransient_run:
  "workerResults' (runWorkers (exEnv exSeqPlan1 exTransient) exRequest exSeqPlan1) =
     [exResult ''A-retry'' True ''done'' 2]"
  "history (runWorkers (exEnv exSeqPlan1 exTransient) exRequest exSeqPlan1) =
     [\<lparr> planTask = exTask ''A'' None, workerNumber = Some 1, priorResults = [],
        attempts =
          [(augmentTask (planContextForWorkers exRequest exSeqPlan1) 1 (Some 1) [] (exTask ''A'' None),
            exResult ''A'' False ''Error: 429 rate limit'' 1),
           ((augmentTask (planContextForWorkers exRequest exSeqPlan1) 1 (Some 1) [] (exTask ''A'' None))
              \<lparr> id' := ''A-retry'' \<rparr>,
            exResult ''A-retry'' True ''done'' 2)] \<rparr>]"
  by (simp_all add: run_defs ex_defs exSeqPlan1_def exTransient_def ex_transient_texts)

lemma exTransient_total:
  "execute (exEnv exSeqPlan1 exTransient) exRequest =
     Returned \<lparr> overallSuccess = True, summary = ''All done.'',
                workerResults = [exResult ''A-retry'' True ''done'' 2], totalCostUsd = Num 9 \<rparr>"
  by (simp add: run_defs ex_defs exSeqPlan1_def exTransient_def ex_transient_texts)

lemma exTransient_cap: "capWorkers exSeqPlan1 = exSeqPlan1"
  by (simp add: capWorkers_def MAX_WORKERS_def exSeqPlan1_def)

section \<open>Fail-fast in the sequential loop\<close>

lemma failFastInv_initial: "failFastInv initialLocals"
  by (simp add: failFastInv_def initialLocals_def)

lemma failFastInv_failure_is_last:
  assumes "failFastInv st" "i < length (workerResults' st)" "\<not> success (workerResults' st ! i)"
  shows "length (workerResults' st) = Suc i"
proof (rule ccontr)
  assume "length (workerResults' st) \<noteq> Suc i"
  with assms(2) have "i < length (butlast (workerResults' st))" by simp
  moreover from this have "butlast (workerResults' st) ! i = workerResults' st ! i"
    by (simp add: nth_butlast)
  ultimately have "success (workerResults' st ! i)"
    using assms(1) by (auto simp: failFastInv_def list_all_length)
  with assms(3) show False by simp
qed

lemma seq_run_planTasks:
  assumes "sequential plan"
  shows "map planTask (history (runWorkers env workRequest plan)) =
           take (length (workerResults' (runWorkers env workRequest plan))) (workers plan)"
proof -
  let ?st = "runWorkers env workRequest plan"
  from seqLoop_planTasks [of "workerRun env" "signalAborted env" "planContextForWorkers workRequest plan"
      "length (workers plan)" 0 "workers plan" initialLocals]
  obtain k where k: "map planTask (history ?st) = take k (workers plan)"
    using assms by (auto simp: runWorkers_def Let_def initialLocals_def)
  have "length (history ?st) = length (workerResults' ?st)"
    using runWorkers_entries [of env workRequest plan] by (rule list_all2_lengthD)
  with k have "length (take k (workers plan)) = length (workerResults' ?st)"
    by (metis length_map)
  then have "take k (workers plan) = take (length (workerResults' ?st)) (workers plan)"
    by (metis length_take min.absorb2 take_all_iff nat_le_linear take_take)
  with k show ?thesis by simp
qed

lemma exSeqPlan3_run:
  "execute (exEnv exSeqPlan3 (exFailing ''B'')) exRequest =
     Returned \<lparr> overallSuccess = False, summary = ''All done.'',
                workerResults = [exResult ''A'' True ''done'' 2, exResult ''B'' False ''compile error'' 1],
                totalCostUsd = Num 10 \<rparr>"
  by (simp add: run_defs ex_defs exSeqPlan3_def ex_transient_texts)

section \<open>Dependencies in the parallel loop\<close>

lemma readyWorkers_deps:
  "w \<in> set (readyWorkers plan st) \<Longrightarrow> set (deps w) \<subseteq> set (completed st)"
  by (auto simp: readyWorkers_def list_all_iff)

lemma priorResults_runReady:
  "priorResults (fst (runReady worker pc tw plan st t)) = depResults st t"
  by (simp add: runReady_def Let_def split: prod.splits)

lemma workerNumber_runReady:
  "workerNumber (fst (runReady worker pc tw plan st t)) = workerNumberMap (workers plan) (id' t)"
  by (simp add: runReady_def Let_def split: prod.splits)

lemma depResults_all_defined:
  assumes "\<forall>d \<in> set ds. m d \<noteq> None"
  shows "List.map_filter m ds = map (\<lambda>d. the (m d)) ds"
  using assms by (induction ds) auto

lemma recorded_parRound:
  assumes "length (history st) = length (workerResults' st)"
  shows "recorded (parRound worker pc tw plan ready st) =
           recorded st @ map (\<lambda>t. (id' t, snd (runReady worker pc tw plan st t))) ready"
  using assms
  by (simp add: recorded_def parRound_history parRound_results planTask_runReady zip_map_map
        comp_def zip_same_conv_map)

lemma parRound_parInv:
  assumes inv: "parInv st" and ready: "set ready \<subseteq> set (readyWorkers plan st)"
  shows "parInv (parRound worker pc tw plan ready st)"
proof -
  let ?st' = "parRound worker pc tw plan ready st"
  let ?new = "map (\<lambda>t. (id' t, snd (runReady worker pc tw plan st t))) ready"
  from inv have len: "length (history st) = length (workerResults' st)"
    by (simp add: parInv_def)
  have rec: "recorded ?st' = recorded st @ ?new"
    using len by (rule recorded_parRound)
  have lrec: "length (recorded st) = length (history st)"
    using len by (simp add: recorded_def)
  have a: "length (history ?st') = length (workerResults' ?st')"
    using len by (simp add: parRound_history parRound_results)
  have b: "\<forall>d \<in> set (completed ?st'). resultMap ?st' d \<noteq> None"
  proof
    fix d assume "d \<in> set (completed ?st')"
    then consider "d \<in> set (completed st)" | "d \<in> id' ` set ready"
      by (auto simp: parRound_completed)
    then show "resultMap ?st' d \<noteq> None"
    proof cases
      case 1
      with inv have "resultMap st d \<noteq> None" by (simp add: parInv_def)
      then show ?thesis by (auto simp: parRound_resultMap map_add_def split: option.splits)
    next
      case 2
      then have "d \<in> fst ` set (rev ?new)" by force
      then have "map_of (rev ?new) d \<noteq> None"
        by (simp add: map_of_eq_None_iff)
      then show ?thesis by (auto simp: parRound_resultMap map_add_def split: option.splits)
    qed
  qed
  have c: "\<forall>d r. resultMap ?st' d = Some r \<longrightarrow> (d, r) \<in> set (recorded ?st')"
  proof (intro allI impI)
    fix d r assume "resultMap ?st' d = Some r"
    then consider "map_of (rev ?new) d = Some r" | "resultMap st d = Some r"
      by (auto simp: parRound_resultMap map_add_def split: option.splits)
    then show "(d, r) \<in> set (recorded ?st')"
    proof cases
      case 1
      then have "(d, r) \<in> set (rev ?new)" by (rule map_of_SomeD)
      then show ?thesis unfolding rec by simp
    next
      case 2
      with inv have "(d, r) \<in> set (recorded st)" by (simp add: parInv_def)
      then show ?thesis unfolding rec by simp
    qed
  qed
  have d: "\<forall>n < length (history ?st').
          list_all2 (\<lambda>d r. (d, r) \<in> set (take n (recorded ?st')))
            (deps (planTask (history ?st' ! n))) (priorResults (history ?st' ! n))"
  proof (intro allI impI)
    fix n assume n: "n < length (history ?st')"
    show "list_all2 (\<lambda>d r. (d, r) \<in> set (take n (recorded ?st')))
            (deps (planTask (history ?st' ! n))) (priorResults (history ?st' ! n))"
    proof (cases "n < length (history st)")
      case True
      then have "take n (recorded ?st') = take n (recorded st)"
        unfolding rec using lrec by simp
      moreover from True have "history ?st' ! n = history st ! n"
        by (simp add: parRound_history nth_append)
      ultimately show ?thesis using inv True by (simp add: parInv_def)
    next
      case False
      define k where "k = n - length (history st)"
      from False n have k: "k < length ready" "n = length (history st) + k"
        by (simp_all add: k_def parRound_history)
      let ?t = "ready ! k"
      have h: "history ?st' ! n = fst (runReady worker pc tw plan st ?t)"
        using k by (simp add: parRound_history nth_append)
      from k ready have "?t \<in> set (readyWorkers plan st)" by auto
      then have dc: "set (deps ?t) \<subseteq> set (completed st)" by (rule readyWorkers_deps)
      with inv have def: "\<forall>d \<in> set (deps ?t). resultMap st d \<noteq> None"
        by (auto simp: parInv_def)
      then have pr: "depResults st ?t = map (\<lambda>d. the (resultMap st d)) (deps ?t)"
        unfolding depResults_def by (rule depResults_all_defined)
      have sub: "set (recorded st) \<subseteq> set (take n (recorded ?st'))"
      proof -
        have "take n (recorded ?st') = recorded st @ take k ?new"
          unfolding rec using lrec k by simp
        then show ?thesis by simp
      qed
      have "list_all2 (\<lambda>d r. (d, r) \<in> set (take n (recorded ?st')))
              (deps ?t) (map (\<lambda>d. the (resultMap st d)) (deps ?t))"
      proof (simp add: list_all2_map2 list_all2_same, intro ballI)
        fix x assume "x \<in> set (deps ?t)"
        with def obtain r where "resultMap st x = Some r" by auto
        moreover with inv have "(x, r) \<in> set (recorded st)" by (simp add: parInv_def)
        ultimately show "(x, the (resultMap st x)) \<in> set (take n (recorded ?st'))"
          using sub by auto
      qed
      then show ?thesis
        by (simp add: h planTask_runReady priorResults_runReady pr)
    qed
  qed
  from a b c d show ?thesis unfolding parInv_def by blast
qed

lemma parLoop_parInv:
  assumes "parInv st"
  shows "parInv (parLoop worker aborted pc tw plan st)"
  by (rule parLoop_induct_inv [where P = parInv]) (simp_all add: assms parRound_parInv)

lemma parInv_initial: "parInv (initialLocals\<lparr> remaining := xs \<rparr>)"
  by (simp add: parInv_def initialLocals_def recorded_def)


lemma runWorkers_parInv:
  "\<not> sequential plan \<Longrightarrow> parInv (runWorkers env workRequest plan)"
  by (simp add: runWorkers_def Let_def parLoop_parInv parInv_initial)

lemma recorded_take_nth:
  assumes "(d, r) \<in> set (take n (recorded st))"
  shows "\<exists>i<n. i < length (history st) \<and> id' (planTask (history st ! i)) = d \<and> workerResults' st ! i = r"
proof -
  from assms obtain i where i: "i < length (take n (recorded st))" "take n (recorded st) ! i = (d, r)"
    by (auto simp: in_set_conv_nth)
  then have "i < n" "i < length (history st)" "i < length (workerResults' st)"
    by (simp_all add: recorded_def)
  moreover from this i(2) have "id' (planTask (history st ! i)) = d \<and> workerResults' st ! i = r"
    by (simp add: recorded_def)
  ultimately show ?thesis by blast
qed

lemma entryOf_prompts:
  assumes "entryOf worker pc tw h r" and "a \<in> set (attempts h)"
  shows "prompt (fst a) = prompt (augmentTask pc tw (workerNumber h) (priorResults h) (planTask h))"
proof -
  let ?run = "executeWithRetry worker (augmentTask pc tw (workerNumber h) (priorResults h) (planTask h))"
  from assms(1) have "attempts h = snd ?run"
    by (simp add: entryOf_def)
  with assms(2) show ?thesis
    by (auto simp: executeWithRetry_def Let_def split: if_splits)
qed

lemma join_Cons: "join sep (x # xs) = x @ concat (map (\<lambda>y. sep @ y) xs)"
  by (induction xs arbitrary: x) simp_all

lemma buildWorkerContextPrefix_text:
  "buildWorkerContextPrefix planContext totalWorkers number prior =
     planContext @ nl @ nl @ ''You are Worker #'' @ showNumber number @ '' of ''
       @ showNat totalWorkers @ ''.''
     @ (if prior = [] then []
        else nl @ nl @ ''## Results from prior workers:''
             @ concat (map (\<lambda>r. nl @ nl @ ''--- '' @ taskId r @ '' [''
                                 @ (if success r then ''SUCCESS'' else ''FAILED'') @ ''] ---'' @ nl
                                 @ (if 8000 < length (WorkerResult.result r)
                                    then take 8000 (WorkerResult.result r) @ nl @ ''... (truncated, ''
                                         @ showNat (length (WorkerResult.result r) - 8000)
                                         @ '' chars omitted)''
                                    else WorkerResult.result r)) prior)
             @ nl @ nl @ ''Use the above results to inform your work. Do not repeat work already done.'')"
proof -
  have c: "concat (map (\<lambda>y. nl @ y) (concat (map priorResultLines prior))) =
        concat (map (\<lambda>r. nl @ nl @ ''--- '' @ taskId r @ '' [''
                                 @ (if success r then ''SUCCESS'' else ''FAILED'') @ ''] ---'' @ nl
                                 @ (if 8000 < length (WorkerResult.result r)
                                    then take 8000 (WorkerResult.result r) @ nl @ ''... (truncated, ''
                                         @ showNat (length (WorkerResult.result r) - 8000)
                                         @ '' chars omitted)''
                                    else WorkerResult.result r)) prior)"
    by (induction prior) (simp_all add: priorResultLines_def truncated_def MAX_RESULT_CHARS_def)
  show ?thesis
    by (simp add: buildWorkerContextPrefix_def join_Cons c)
qed

lemma parRound_completedRecorded:
  assumes "completedRecorded s"
  shows "completedRecorded (parRound worker pc tw plan ready s)"
proof -
  let ?s' = "parRound worker pc tw plan ready s"
  from assms have len: "length (workerResults' s) = length (history s)"
    by (simp add: completedRecorded_def)
  have "\<exists>i < length (history ?s'). id' (planTask (history ?s' ! i)) = d"
    if "d \<in> set (completed ?s')" for d
  proof -
    from that consider "d \<in> set (completed s)" | "d \<in> id' ` set ready"
      by (auto simp: parRound_completed)
    then show ?thesis
    proof cases
      case 1
      with assms obtain i where "i < length (history s)" "id' (planTask (history s ! i)) = d"
        by (auto simp: completedRecorded_def)
      then show ?thesis
        by (auto simp: parRound_history nth_append intro!: exI [of _ i])
    next
      case 2
      then obtain k where k: "k < length ready" "id' (ready ! k) = d"
        by (auto simp: in_set_conv_nth)
      then show ?thesis
        by (auto simp: parRound_history nth_append planTask_runReady
              intro!: exI [of _ "length (history s) + k"])
    qed
  qed
  with len show ?thesis
    by (simp add: completedRecorded_def parRound_history parRound_results)
qed

lemma scheduling_completedRecorded:
  assumes "scheduling worker aborted pc tw plan s"
  shows "completedRecorded s"
  using assms
proof (induction rule: scheduling.induct)
  case start
  show ?case by (simp add: completedRecorded_def initialLocals_def)
next
  case (round st)
  then show ?case by (simp add: parRound_completedRecorded)
qed

lemma parRound_roundInv:
  assumes inv: "roundInv worker aborted pc tw plan st"
    and stp: "remaining st \<noteq> []" "\<not> aborted (completedCount st)" "\<not> failFastTriggered st"
      "readyWorkers plan st \<noteq> []"
  shows "roundInv worker aborted pc tw plan (parRound worker pc tw plan (readyWorkers plan st) st)"
proof -
  let ?ready = "readyWorkers plan st"
  let ?st' = "parRound worker pc tw plan ?ready st"
  from inv have sch: "scheduling worker aborted pc tw plan st"
    by (simp add: roundInv_def)
  then have sch': "scheduling worker aborted pc tw plan ?st'"
    using stp by (rule scheduling.round)
  from sch have len: "length (workerResults' st) = length (history st)"
    using scheduling_completedRecorded by (auto simp: completedRecorded_def)
  have "\<exists>s. startedInRound worker aborted pc tw plan ?st' n s" if n: "n < length (history ?st')" for n
  proof (cases "n < length (history st)")
    case True
    with inv obtain s where s: "startedInRound worker aborted pc tw plan st n s"
      by (auto simp: roundInv_def)
    with True have "startedInRound worker aborted pc tw plan ?st' n s"
      using len by (auto simp: startedInRound_def parRound_history parRound_results nth_append)
    then show ?thesis ..
  next
    case False
    define k where "k = n - length (history st)"
    from False n have k: "k < length ?ready" "n = length (history st) + k"
      by (simp_all add: k_def parRound_history)
    then have "planTask (history ?st' ! n) = ?ready ! k"
      by (simp add: parRound_history nth_append planTask_runReady)
    with k sch have "startedInRound worker aborted pc tw plan ?st' n st"
      using len by (simp add: startedInRound_def parRound_history parRound_results)
    then show ?thesis ..
  qed
  with sch' show ?thesis by (simp add: roundInv_def)
qed

lemma parLoop_roundInv:
  assumes "roundInv worker aborted pc tw plan st"
  shows "roundInv worker aborted pc tw plan (parLoop worker aborted pc tw plan st)"
  by (rule parLoop_induct_inv [where P = "roundInv worker aborted pc tw plan"])
     (simp_all add: assms parRound_roundInv)

lemma runWorkers_roundInv:
  assumes "\<not> sequential plan"
  shows "roundInv (workerRun env) (signalAborted env) (planContextForWorkers workRequest plan)
           (length (workers plan)) plan (runWorkers env workRequest plan)"
proof -
  have "roundInv (workerRun env) (signalAborted env) (planContextForWorkers workRequest plan)
           (length (workers plan)) plan (initialLocals\<lparr> remaining := newSet (map id' (workers plan)) \<rparr>)"
    by (simp add: roundInv_def scheduling.start) (simp add: initialLocals_def)
  then show ?thesis
    using assms by (simp add: runWorkers_def Let_def parLoop_roundInv)
qed

lemma exEcho_run:
  "workerResults' (runWorkers (exEnv exParPlan exEcho) exRequest exParPlan) =
     [exResult ''A'' True ''output of A'' 2, exResult ''B'' True ''output of B'' 2,
      exResult ''C'' True ''output of C'' 2, exResult ''D'' True ''output of D'' 2]"
  "map (\<lambda>h. (planTask h, workerNumber h, priorResults h, length (attempts h)))
     (history (runWorkers (exEnv exParPlan exEcho) exRequest exParPlan)) =
     [(exTask ''A'' None, Some 1, [], 1),
      (exTask ''B'' (Some [''A'']), Some 2, [exResult ''A'' True ''output of A'' 2], 1),
      (exTask ''C'' (Some [''A'']), Some 3, [exResult ''A'' True ''output of A'' 2], 1),
      (exTask ''D'' (Some [''B'', ''C'']), Some 4,
         [exResult ''B'' True ''output of B'' 2, exResult ''C'' True ''output of C'' 2], 1)]"
  by (simp_all add: run_defs ex_defs exEcho_def exParPlan_def par_defs parLoop_step parLoop_stop)

lemma exEcho_last:
  "length (history (runWorkers (exEnv exParPlan exEcho) exRequest exParPlan)) = 4"
  "planTask (history (runWorkers (exEnv exParPlan exEcho) exRequest exParPlan) ! 3) =
     exTask ''D'' (Some [''B'', ''C''])"
  "workerNumber (history (runWorkers (exEnv exParPlan exEcho) exRequest exParPlan) ! 3) = Some 4"
  "priorResults (history (runWorkers (exEnv exParPlan exEcho) exRequest exParPlan) ! 3) =
     [exResult ''B'' True ''output of B'' 2, exResult ''C'' True ''output of C'' 2]"
  "length (attempts (history (runWorkers (exEnv exParPlan exEcho) exRequest exParPlan) ! 3)) = 1"
proof -
  let ?hs = "history (runWorkers (exEnv exParPlan exEcho) exRequest exParPlan)"
  let ?f = "\<lambda>h. (planTask h, workerNumber h, priorResults h, length (attempts h))"
  have "length (map ?f ?hs) = 4"
    unfolding exEcho_run(2) by simp
  then show len: "length ?hs = 4" by simp
  have "map ?f ?hs ! 3 =
          (exTask ''D'' (Some [''B'', ''C'']), Some 4,
           [exResult ''B'' True ''output of B'' 2, exResult ''C'' True ''output of C'' 2], 1)"
    unfolding exEcho_run(2) by simp
  then show "planTask (?hs ! 3) = exTask ''D'' (Some [''B'', ''C''])"
    and "workerNumber (?hs ! 3) = Some 4"
    and "priorResults (?hs ! 3) = [exResult ''B'' True ''output of B'' 2, exResult ''C'' True ''output of C'' 2]"
    and "length (attempts (?hs ! 3)) = 1"
    using len by simp_all
qed

lemma exPromptD_facts:
  "includes' exPromptD (''--- B [SUCCESS] ---'' @ nl @ ''output of B'')"
  "includes' exPromptD (''--- C [SUCCESS] ---'' @ nl @ ''output of C'')"
  "\<not> includes' exPromptD ''output of A''"
  "showNat 4 = ''4''"
  by code_simp+

section \<open>Workers left in remaining\<close>

lemma parRound_remainingNotRun:
  assumes "remainingNotRun st"
  shows "remainingNotRun (parRound worker pc tw plan ready st)"
  using assms
  by (auto simp: remainingNotRun_def list_all_iff parRound_history remaining_parRound planTask_runReady)

lemma parLoop_remainingNotRun:
  assumes "remainingNotRun st"
  shows "remainingNotRun (parLoop worker aborted pc tw plan st)"
  by (rule parLoop_induct_inv [where P = remainingNotRun]) (simp_all add: assms parRound_remainingNotRun)

lemma runWorkers_remainingNotRun:
  assumes "\<not> sequential plan"
  shows "remainingNotRun (runWorkers env workRequest plan)"
proof -
  have "remainingNotRun (initialLocals\<lparr> remaining := newSet (map id' (workers plan)) \<rparr>)"
    by (simp add: remainingNotRun_def initialLocals_def)
  then show ?thesis
    using assms by (simp add: runWorkers_def Let_def parLoop_remainingNotRun)
qed

lemma exDeadlock_run:
  "workerResults' (runWorkers (exEnv exDeadlockPlan exAllOk) exRequest exDeadlockPlan) =
     [exResult ''A'' True ''done'' 2]"
  "remaining (runWorkers (exEnv exDeadlockPlan exAllOk) exRequest exDeadlockPlan) = [''B'']"
  "completed (runWorkers (exEnv exDeadlockPlan exAllOk) exRequest exDeadlockPlan) = [''A'']"
  "failFastTriggered (runWorkers (exEnv exDeadlockPlan exAllOk) exRequest exDeadlockPlan) = False"
  "map planTask (history (runWorkers (exEnv exDeadlockPlan exAllOk) exRequest exDeadlockPlan)) =
     [exTask ''A'' None]"
  by (simp_all add: run_defs ex_defs exDeadlockPlan_def par_defs parLoop_step parLoop_stop)

lemma exDeadlock_ready:
  "readyWorkers exDeadlockPlan (runWorkers (exEnv exDeadlockPlan exAllOk) exRequest exDeadlockPlan) = []"
  by (simp add: readyWorkers_def exDeadlock_run)
     (simp add: exDeadlockPlan_def exTask_def deps_def)

lemma exDeadlock_cap: "capWorkers exDeadlockPlan = exDeadlockPlan"
  by (simp add: capWorkers_def MAX_WORKERS_def exDeadlockPlan_def)

section \<open>Fail-fast in the parallel loop\<close>

lemma failedIds_failuresFirst:
  assumes "length ready = length results" "failuresFirst results"
  shows "failedIds ready results = failedInRound ready results"
  using assms
proof (induction ready results rule: list_induct2)
  case Nil
  then show ?case by (simp add: failedIds_def failedInRound_def)
next
  case (Cons t ready r results)
  show ?case
  proof (cases "success r")
    case True
    with Cons.prems have none: "filter (\<lambda>r. \<not> success r) results = []"
      by (simp add: failuresFirst_def)
    then have "\<forall>x \<in> set results. success x"
      by (simp add: filter_empty_conv)
    then have "filter (\<lambda>p. \<not> success (snd p)) (zip ready results) = []"
      by (auto simp: filter_empty_conv dest: set_zip_rightD)
    with True none show ?thesis
      by (simp add: failedIds_def failedInRound_def)
  next
    case False
    with Cons.prems have "failuresFirst results"
      by (simp add: failuresFirst_def)
    then have IH: "failedIds ready results = failedInRound ready results"
      by (rule Cons.IH)
    let ?k = "length (filter (\<lambda>r. \<not> success r) results)"
    have "map (\<lambda>i. id' ((t # ready) ! i)) [0 ..< Suc ?k] =
            id' t # map (\<lambda>i. id' (ready ! i)) [0 ..< ?k]"
      by (simp add: upt_conv_Cons map_Suc_upt [symmetric] del: upt_Suc)
    with False IH show ?thesis
      by (simp add: failedIds_def failedInRound_def)
  qed
qed

lemma set_newSet: "set (newSet xs) = set xs"
proof -
  have "set (foldl setAdd acc xs) = set acc \<union> set xs" for acc
    by (induction xs arbitrary: acc) (auto simp: setAdd_def)
  then show ?thesis by (simp add: newSet_def)
qed

lemma readyWorkers_subset: "set (readyWorkers plan st) \<subseteq> set (workers plan)"
  by (auto simp: readyWorkers_def)

lemma parRound_schedInv:
  assumes inv: "schedInv plan st" and dist: "distinct (map id' (workers plan))"
  shows "schedInv plan (parRound worker pc tw plan (readyWorkers plan st) st)"
proof -
  let ?ready = "readyWorkers plan st"
  let ?st' = "parRound worker pc tw plan ?ready st"
  have rem: "set (remaining ?st') = set (remaining st) - id' ` set ?ready"
    by (auto simp: remaining_parRound)
  have com: "set (completed ?st') = set (completed st) \<union> id' ` set ?ready"
    by (simp add: parRound_completed)
  have rdy: "id' ` set ?ready \<subseteq> set (remaining st)"
    by (auto dest: readyWorkers_remaining)
  from inv have disj: "set (remaining st) \<inter> set (completed st) = {}"
    by (simp add: schedInv_def)
  have 1: "set (remaining ?st') \<inter> set (completed ?st') = {}"
    using disj rem com by auto
  have 2: "id' w \<in> set (remaining ?st')
          \<or> (id' w \<in> set (completed ?st') \<and> set (deps w) \<subseteq> set (completed ?st'))"
    if w: "w \<in> set (workers plan)" for w
  proof (cases "id' w \<in> id' ` set ?ready")
    case True
    then obtain t where t: "t \<in> set ?ready" "id' t = id' w" by auto
    with readyWorkers_subset have "t \<in> set (workers plan)" by blast
    with dist w t(2) have "t = w"
      by (meson distinct_map inj_on_def)
    with t(1) have "set (deps w) \<subseteq> set (completed st)"
      by (simp add: readyWorkers_deps)
    with True show ?thesis using com by auto
  next
    case False
    from inv w have "id' w \<in> set (remaining st)
          \<or> (id' w \<in> set (completed st) \<and> set (deps w) \<subseteq> set (completed st))"
      by (simp add: schedInv_def)
    with False show ?thesis using rem com by auto
  qed
  from 1 2 show ?thesis by (simp add: schedInv_def)
qed

lemma scheduling_schedInv:
  assumes "scheduling worker aborted pc tw plan st" and "distinct (map id' (workers plan))"
  shows "schedInv plan st"
  using assms
proof (induction rule: scheduling.induct)
  case start
  then show ?case
    by (simp add: schedInv_def initialLocals_def set_newSet)
next
  case (round st)
  then show ?case by (simp add: parRound_schedInv)
qed


lemma remaining_foldl_parRound:
  "remaining (foldl recordResult st (map (runReady worker pc tw plan st) ready)) =
     remaining (parRound worker pc tw plan ready st)"
  by (simp add: parRound_def Let_def)

lemma blockedWorkers_cong:
  "remaining s = remaining s' \<Longrightarrow> blockedWorkers plan s F = blockedWorkers plan s' F"
  by (simp add: blockedWorkers_def)

lemma parRound_failFast:
  "failFastTriggered (parRound worker pc tw plan ready st) \<longleftrightarrow>
     failFastTriggered st
     \<or> (list_ex (\<lambda>r. \<not> success r) (roundResults worker pc tw plan ready st)
        \<and> blockedWorkers plan (parRound worker pc tw plan ready st)
             (failedIds ready (roundResults worker pc tw plan ready st)) \<noteq> [])"
proof -
  let ?st1 = "foldl recordResult st (map (runReady worker pc tw plan st) ready)"
  let ?results = "roundResults worker pc tw plan ready st"
  have b: "blockedWorkers plan (parRound worker pc tw plan ready st) F = blockedWorkers plan ?st1 F" for F
    by (rule blockedWorkers_cong) (simp add: remaining_foldl_parRound)
  have "failFastTriggered (parRound worker pc tw plan ready st) \<longleftrightarrow>
          failFastTriggered st
          \<or> (list_ex (\<lambda>r. \<not> success r) ?results
              \<and> blockedWorkers plan ?st1 (failedIds ready ?results) \<noteq> [])"
    by (auto simp: parRound_def Let_def roundResults_def comp_def foldl_recordResult_failFast)
  then show ?thesis
    by (simp only: b)
qed

lemma blockedWorkers_nonempty:
  "blockedWorkers plan s F \<noteq> [] \<longleftrightarrow>
     (\<exists>w \<in> set (workers plan). id' w \<in> set (remaining s) \<and> (\<exists>f \<in> set F. f \<in> set (deps w)))"
  by (auto simp: blockedWorkers_def filter_empty_conv list_ex_iff)

lemma failedInRound_nonempty:
  assumes "length ready = length results"
  shows "failedInRound ready results \<noteq> [] \<longleftrightarrow> list_ex (\<lambda>r. \<not> success r) results"
proof -
  have "(\<exists>p \<in> set (zip ready results). \<not> success (snd p)) \<longleftrightarrow> (\<exists>r \<in> set results. \<not> success r)"
    using assms by (metis in_set_impl_in_set_zip2 set_zip_rightD surjective_pairing snd_conv)
  then show ?thesis
    by (simp add: failedInRound_def filter_empty_conv list_ex_iff)
qed

lemma failedInRound_subset: "set (failedInRound ready results) \<subseteq> id' ` set ready"
  by (auto simp: failedInRound_def dest: set_zip_leftD)

lemma dependsTransitively_last:
  assumes "dependsTransitively plan x f"
  shows "\<exists>w \<in> set (workers plan). f \<in> set (deps w)"
proof -
  from assms obtain y where "dependsDirectly plan y f"
    unfolding dependsTransitively_def by (auto elim: tranclp.cases)
  then show ?thesis by (auto simp: dependsDirectly_def list_ex_iff)
qed

lemma direct_dependent_remains:
  assumes inv: "schedInv plan st" and dist: "distinct (map id' (workers plan))"
    and x: "x \<in> set (workers plan)" and f: "f \<in> set (deps x)"
    and fr: "f \<in> id' ` set (readyWorkers plan st)"
  shows "id' x \<in> set (remaining (parRound worker pc tw plan (readyWorkers plan st) st))"
proof -
  let ?ready = "readyWorkers plan st"
  from fr have frem: "f \<in> set (remaining st)"
    by (auto dest: readyWorkers_remaining)
  with inv have fnc: "f \<notin> set (completed st)"
    by (auto simp: schedInv_def)
  from inv x have "id' x \<in> set (remaining st)
      \<or> (id' x \<in> set (completed st) \<and> set (deps x) \<subseteq> set (completed st))"
    by (simp add: schedInv_def)
  with f fnc have xr: "id' x \<in> set (remaining st)" by auto
  have "id' x \<notin> id' ` set ?ready"
  proof
    assume "id' x \<in> id' ` set ?ready"
    then obtain t where t: "t \<in> set ?ready" "id' t = id' x" by auto
    with readyWorkers_subset have "t \<in> set (workers plan)" by blast
    with dist x t(2) have "t = x" by (meson distinct_map inj_on_def)
    with t(1) have "set (deps x) \<subseteq> set (completed st)" by (simp add: readyWorkers_deps)
    with f fnc show False by auto
  qed
  with xr show ?thesis by (simp add: remaining_parRound)
qed

lemma scheduling_parLoop:
  assumes "scheduling worker aborted pc tw plan st"
  shows "parLoop worker aborted pc tw plan st =
         parLoop worker aborted pc tw plan (initialLocals\<lparr> remaining := newSet (map id' (workers plan)) \<rparr>)"
  using assms
proof (induction rule: scheduling.induct)
  case start
  show ?case by simp
next
  case (round st)
  from round.hyps have "parLoop worker aborted pc tw plan st =
      parLoop worker aborted pc tw plan (parRound worker pc tw plan (readyWorkers plan st) st)"
    by (intro parLoop_step)
  with round.IH show ?case by simp
qed

lemma scheduling_remainingNotRun:
  assumes "scheduling worker aborted pc tw plan st"
  shows "remainingNotRun st"
  using assms
proof (induction rule: scheduling.induct)
  case start
  show ?case by (simp add: remainingNotRun_def initialLocals_def)
next
  case (round st)
  then show ?case by (simp add: parRound_remainingNotRun)
qed

lemma exSkip_ready:
  "readyWorkers exSkipPlan exSkipStart = [exTask ''A'' None, exTask ''B'' None]"
  by (simp add: exSkipStart_def exSkipPlan_def initialLocals_def par_defs exTask_def)

lemma exSkip_round:
  "roundResults (exFailing ''A'') pc tw exSkipPlan [exTask ''A'' None, exTask ''B'' None] exSkipStart =
     [exResult ''A'' False ''compile error'' 1, exResult ''B'' True ''done'' 2]"
  "failFastTriggered (parRound (exFailing ''A'') pc tw exSkipPlan [exTask ''A'' None, exTask ''B'' None] exSkipStart)"
  "remaining (parRound (exFailing ''A'') pc tw exSkipPlan [exTask ''A'' None, exTask ''B'' None] exSkipStart)
     = [''C'', ''D'']"
  by (simp_all add: roundResults_def exSkipStart_def exSkipPlan_def initialLocals_def par_defs
        exTask_def exFailing_def exResolved_def exResult_def executeWithRetry_def
        executeWithMonitoring_def ex_transient_texts Let_def)

lemma exSkip_run:
  "workerResults' (runWorkers (exEnv exSkipPlan (exFailing ''A'')) exRequest exSkipPlan) =
     [exResult ''A'' False ''compile error'' 1, exResult ''B'' True ''done'' 2]"
  "failFastTriggered (runWorkers (exEnv exSkipPlan (exFailing ''A'')) exRequest exSkipPlan)"
  "remaining (runWorkers (exEnv exSkipPlan (exFailing ''A'')) exRequest exSkipPlan) = [''C'', ''D'']"
  "map (\<lambda>h. id' (planTask h)) (history (runWorkers (exEnv exSkipPlan (exFailing ''A'')) exRequest exSkipPlan))
     = [''A'', ''B'']"
  by (simp_all add: run_defs ex_defs exSkipPlan_def par_defs parLoop_step parLoop_stop ex_transient_texts)

lemma exSkip_direct:
  "dependsDirectly exSkipPlan x d \<longleftrightarrow> (x = ''C'' \<and> d = ''A'') \<or> (x = ''D'' \<and> d = ''B'')"
  by (auto simp: dependsDirectly_def exSkipPlan_def exTask_def deps_def)

lemma exSkip_D_independent: "\<not> dependsTransitively exSkipPlan ''D'' ''A''"
proof
  assume "dependsTransitively exSkipPlan ''D'' ''A''"
  then obtain z where z: "dependsDirectly exSkipPlan ''D'' z" "(dependsDirectly exSkipPlan)\<^sup>*\<^sup>* z ''A''"
    unfolding dependsTransitively_def by (auto dest: tranclpD)
  from z(1) have "z = ''B''" by (simp add: exSkip_direct)
  with z(2) show False
    by (auto elim: converse_rtranclpE simp: exSkip_direct)
qed

text \<open>
  Outside the rounds in which the failures come first, \<open>failedIds\<close> does not hold the
  ids of the failed workers: it holds the ids of the first \<open>k\<close> ready tasks, \<open>k\<close> being
  the number of failures.  When \<open>A\<close> succeeds and \<open>B\<close> fails in one round, the id
  collected is that of \<open>A\<close>; a worker \<open>C\<close> that depends on \<open>B\<close> is then not found
  blocked, fail-fast is not triggered, and \<open>C\<close> runs in the next round.
\<close>

lemma failedIds_leading_ids:
  "failedIds [exTask ''A'' None, exTask ''B'' None]
     [exResult ''A'' True ''done'' 2, exResult ''B'' False ''compile error'' 1] = [''A'']"
  by (simp add: failedIds_def exResult_def exTask_def)

lemma failedIds_slip_run:
  "map success (workerResults' (runWorkers (exEnv exSlipPlan (exFailing ''B'')) exRequest exSlipPlan))
     = [True, False, True]"
  "\<not> failFastTriggered (runWorkers (exEnv exSlipPlan (exFailing ''B'')) exRequest exSlipPlan)"
  "map (\<lambda>h. id' (planTask h))
     (history (runWorkers (exEnv exSlipPlan (exFailing ''B'')) exRequest exSlipPlan)) = [''A'', ''B'', ''C'']"
  by (simp_all add: run_defs ex_defs exSlipPlan_def par_defs parLoop_step parLoop_stop ex_transient_texts)

section \<open>Matching the blocks of a reply\<close>

lemma startsWith_iff: "startsWith s p \<longleftrightarrow> (\<exists>r. s = p @ r)"
  by (induction s p rule: startsWith.induct) auto

lemma includes'_iff: "includes' s p \<longleftrightarrow> (\<exists>a b. s = a @ p @ b)"
proof (induction s)
  case Nil
  show ?case by auto
next
  case (Cons c s)
  show ?case
  proof
    assume "includes' (c # s) p"
    then consider "startsWith (c # s) p" | "includes' s p" by auto
    then show "\<exists>a b. c # s = a @ p @ b"
    proof cases
      case 1
      then obtain r where "c # s = p @ r" by (auto simp: startsWith_iff)
      then have "c # s = [] @ p @ r" by simp
      then show ?thesis by blast
    next
      case 2
      with Cons obtain a b where "s = a @ p @ b" by auto
      then have "c # s = (c # a) @ p @ b" by simp
      then show ?thesis by blast
    qed
  next
    assume "\<exists>a b. c # s = a @ p @ b"
    then obtain a b where ab: "c # s = a @ p @ b" by blast
    show "includes' (c # s) p"
    proof (cases a)
      case Nil
      with ab have "startsWith (c # s) p" by (auto simp: startsWith_iff)
      then show ?thesis by simp
    next
      case (Cons x a')
      with ab have "s = a' @ p @ b" by simp
      with Cons.IH have "includes' s p" by blast
      then show ?thesis by simp
    qed
  qed
qed

lemma splitAtFirst_fresh_prefix:
  assumes "c \<notin> set lead"
  shows "splitAtFirst (c # p) (lead @ (c # p) @ rest) = Some (lead, rest)"
  using assms
proof (induction lead)
  case Nil
  have "startsWith ((c # p) @ rest) (c # p)" by (simp add: startsWith_iff)
  then show ?case
    by (cases "(c # p) @ rest") auto
next
  case (Cons x lead)
  then show ?case by auto
qed

lemma startsWith_overlap:
  assumes sw: "startsWith (u @ (c # p) @ rest) (c # p)" and "u \<noteq> []" and "c \<notin> set p"
  shows "startsWith u (c # p)"
proof -
  from sw obtain r where "u @ ((c # p) @ rest) = (c # p) @ r"
    by (auto simp: startsWith_iff)
  with append_eq_append_conv2 [of u "(c # p) @ rest" "c # p" r]
  consider w where "u @ w = c # p" "(c # p) @ rest = w @ r"
    | w where "u = (c # p) @ w"
    by blast
  then show ?thesis
  proof cases
    case 1
    show ?thesis
    proof (cases w)
      case Nil
      with 1(1) show ?thesis by (simp add: startsWith_iff)
    next
      case (Cons y w')
      with 1(2) have "y = c" by simp
      moreover from 1(1) assms(2) Cons have "y \<in> set p"
        by (cases u) auto
      ultimately show ?thesis using assms(3) by simp
    qed
  next
    case 2
    then show ?thesis by (auto simp: startsWith_iff)
  qed
qed

lemma splitAtFirst_body:
  assumes "\<not> includes' body (c # p)" and "c \<notin> set p"
  shows "splitAtFirst (c # p) (body @ (c # p) @ rest) = Some (body, rest)"
  using assms(1)
proof (induction body)
  case Nil
  show ?case using splitAtFirst_fresh_prefix [of c "[]" p rest] by simp
next
  case (Cons x body)
  then have ns: "\<not> startsWith (x # body) (c # p)" and ni: "\<not> includes' body (c # p)"
    by auto
  have "\<not> startsWith ((x # body) @ (c # p) @ rest) (c # p)"
    using startsWith_overlap [of "x # body" c p rest] ns assms(2) by blast
  with Cons.IH [OF ni] show ?case by simp
qed

lemma delimiter_shapes:
  "ACTION_OPEN = CHR ''<'' # ''RUMPBOT_ACTION>''"
  "ACTION_CLOSE = CHR ''<'' # ''/RUMPBOT_ACTION>''"
  "MEMORY_OPEN = CHR ''<'' # ''TIFFBOT_MEMORY>''"
  "MEMORY_CLOSE = CHR ''<'' # ''/TIFFBOT_MEMORY>''"
  by (simp_all add: ACTION_OPEN_def ACTION_CLOSE_def MEMORY_OPEN_def MEMORY_CLOSE_def)

lemma splitAtFirst_Some:
  "splitAtFirst p s = Some (a, b) \<Longrightarrow> s = a @ p @ b"
proof (induction s arbitrary: a)
  case Nil
  then show ?case by (simp split: if_splits)
next
  case (Cons c s)
  show ?case
  proof (cases "startsWith (c # s) p")
    case True
    with Cons.prems have "a = []" "b = drop (length p) (c # s)" by simp_all
    moreover from True obtain r where "c # s = p @ r" by (auto simp: startsWith_iff)
    ultimately show ?thesis by simp
  next
    case False
    with Cons.prems obtain a' where "splitAtFirst p s = Some (a', b)" "a = c # a'"
      by auto
    with Cons.IH show ?thesis by simp
  qed
qed

lemma matchBlock_first:
  assumes "\<not> includes' pre (c # p)" "c \<notin> set p" "\<not> includes' body (d # q)" "d \<notin> set q"
  shows "matchBlock (c # p) (d # q) (pre @ (c # p) @ body @ (d # q) @ post) = Some (pre, body, post)"
proof -
  have "splitAtFirst (c # p) (pre @ (c # p) @ (body @ (d # q) @ post)) = Some (pre, body @ (d # q) @ post)"
    using assms(1,2) by (rule splitAtFirst_body)
  moreover have "splitAtFirst (d # q) (body @ (d # q) @ post) = Some (body, post)"
    using assms(3,4) by (rule splitAtFirst_body)
  ultimately show ?thesis
    by (simp add: matchBlock_def)
qed

lemma matchBlock_Some:
  assumes "matchBlock opening closing s = Some (a, m, b)"
  shows "s = a @ opening @ m @ closing @ b"
proof -
  from assms obtain rest where 1: "splitAtFirst opening s = Some (a, rest)"
    and 2: "splitAtFirst closing rest = Some (m, b)"
    by (auto simp: matchBlock_def split: option.splits)
  from splitAtFirst_Some [OF 1] splitAtFirst_Some [OF 2] show ?thesis by simp
qed

lemma matchBlock_no_block:
  assumes "\<forall>a m b. s \<noteq> a @ opening @ m @ closing @ b"
  shows "matchBlock opening closing s = None"
proof (cases "matchBlock opening closing s")
  case None
  then show ?thesis .
next
  case (Some x)
  then obtain a m b where "matchBlock opening closing s = Some (a, m, b)"
    by (cases x) auto
  from matchBlock_Some [OF this] assms show ?thesis by blast
qed

lemma includes'_dropWhile:
  assumes "p \<noteq> []" "\<not> P (hd p)"
  shows "includes' (dropWhile P s) p \<longleftrightarrow> includes' s p"
proof (induction s)
  case Nil
  show ?case by simp
next
  case (Cons x s)
  show ?case
  proof (cases "P x")
    case True
    with assms have "\<not> startsWith (x # s) p"
      by (cases p) auto
    with True Cons show ?thesis by simp
  next
    case False
    then show ?thesis by simp
  qed
qed

lemma includes'_rev: "includes' (rev s) (rev p) \<longleftrightarrow> includes' s p"
proof -
  have "(\<exists>a b. rev s = a @ rev p @ b) \<longleftrightarrow> (\<exists>a b. s = a @ p @ b)"
  proof
    assume "\<exists>a b. rev s = a @ rev p @ b"
    then obtain a b where "rev s = a @ rev p @ b" by blast
    then have "s = rev b @ p @ rev a"
      by (metis append.assoc rev_append rev_rev_ident)
    then show "\<exists>a b. s = a @ p @ b" by blast
  next
    assume "\<exists>a b. s = a @ p @ b"
    then obtain a b where "s = a @ p @ b" by blast
    then have "rev s = rev b @ rev p @ rev a" by simp
    then show "\<exists>a b. rev s = a @ rev p @ b" by blast
  qed
  then show ?thesis by (simp add: includes'_iff)
qed

lemma includes'_trim:
  assumes "p \<noteq> []" "\<not> isWhiteSpace (hd p)" "\<not> isWhiteSpace (last p)"
  shows "includes' (trim s) p \<longleftrightarrow> includes' s p"
proof -
  have "includes' (trim s) p \<longleftrightarrow> includes' (dropWhile isWhiteSpace (rev (dropWhile isWhiteSpace s))) (rev p)"
    unfolding trim_def using includes'_rev [of "dropWhile isWhiteSpace (rev (dropWhile isWhiteSpace s))" "rev p"]
    by simp
  also have "\<dots> \<longleftrightarrow> includes' (rev (dropWhile isWhiteSpace s)) (rev p)"
    using assms by (intro includes'_dropWhile) (simp_all add: hd_rev)
  also have "\<dots> \<longleftrightarrow> includes' (dropWhile isWhiteSpace s) p"
    by (rule includes'_rev)
  also have "\<dots> \<longleftrightarrow> includes' s p"
    using assms by (intro includes'_dropWhile)
  finally show ?thesis .
qed

lemma containsDelimiter_trim: "containsDelimiter (trim s) = containsDelimiter s"
  by (simp add: containsDelimiter_def includes'_trim delimiter_shapes isWhiteSpace_def)

lemma containsDelimiter_placeholder:
  "containsDelimiter (if trim s = [] then ''Working on it...'' else trim s) = containsDelimiter s"
proof (cases "trim s = []")
  case True
  have "\<not> containsDelimiter ''Working on it...''"
    by (simp add: containsDelimiter_def delimiter_shapes)
  moreover from True have "\<not> containsDelimiter s"
    using containsDelimiter_trim [of s] by (simp add: containsDelimiter_def delimiter_shapes)
  ultimately show ?thesis using True by simp
next
  case False
  then show ?thesis by (simp add: containsDelimiter_trim)
qed

lemma exAction_facts:
  "\<not> includes' (''a < b, noted. '' @ MEMORY_OPEN @ ''likes tabs'' @ MEMORY_CLOSE @ '' On it! '')
       ACTION_OPEN"
  "\<not> includes' exActionJson ACTION_CLOSE"
  "\<not> includes' ''a < b, noted. '' MEMORY_OPEN"
  "\<not> includes' ''likes tabs'' MEMORY_CLOSE"
  "trim exActionJson = exActionJson"
  "trim ''a < b, noted.  On it! '' = ''a < b, noted.  On it!''"
  "\<not> containsDelimiter ''a < b, noted.  On it! ''"
  by code_simp+

section \<open>Claims about the returned summary\<close>

text \<open>
  C1. Whenever \<open>execute\<close> returns a Summary, its \<open>overallSuccess\<close> is true exactly when
  \<open>workerResults\<close> is non-empty and every Worker Result in it has \<open>success = true\<close>.
  (This covers the runs that reach the summary phase and also the early return on a
  plan that cannot be parsed, where the list is empty and the flag is false.)
\<close>

theorem overallSuccess_iff:
  assumes "execute env workRequest = Returned s"
  shows "overallSuccess s \<longleftrightarrow>
           (workerResults s \<noteq> [] \<and> (\<forall>r \<in> set (workerResults s). success r))"
  using assms
  by (auto simp: execute_def summaryPhase_def Let_def list_all_iff
           split: sum.splits prod.splits)

theorem overallSuccess_iff_witness:
  "execute (exEnv exSeqPlan1 exAllOk) exRequest =
     Returned \<lparr> overallSuccess = True, summary = ''All done.'',
                workerResults = [exResult ''A'' True ''done'' 2], totalCostUsd = Num 9 \<rparr>
   \<and> (True \<longleftrightarrow> ([exResult ''A'' True ''done'' 2] \<noteq> []
                   \<and> list_all success [exResult ''A'' True ''done'' 2]))"
  using overallSuccess_iff [OF exSeqPlan1_run] exSeqPlan1_run
  by (simp add: exResult_def)

text \<open>
  C2 (as amended). Whenever \<open>execute\<close> returns a Summary: if the plan could not be
  parsed, no worker ran and \<open>totalCostUsd\<close> is the planning call's cost; otherwise
  \<open>totalCostUsd\<close> is the planning call's cost, plus the costs of the Worker Results in
  \<open>workerResults\<close> added up from 0 in their order, plus the summary call's cost (0 when
  that call failed).  A missing cost counts as 0 and every addition is the floating-point
  addition of the language.  Each Worker Result is the result of the last attempt made
  for its worker, so for a retried worker only the retry's cost is counted.
\<close>

theorem total_cost_counts_final_results:
  assumes "execute env workRequest = Returned s"
  shows "\<exists>planResult. planningCall env = Inr planResult \<and>
          (case parsePlan env (ClaudeResult.result planResult) of
             Inl msg \<Rightarrow>
               workerResults s = []
               \<and> totalCostUsd s = orZero (ClaudeResult.costUsd planResult)
           | Inr parsed \<Rightarrow>
               workerResults s = workerResults' (runWorkers env workRequest (capWorkers parsed))
               \<and> list_all2 (\<lambda>h r. r = snd (last (attempts h)))
                    (history (runWorkers env workRequest (capWorkers parsed))) (workerResults s)
               \<and> totalCostUsd s =
                   numAdd
                     (numAdd (orZero (ClaudeResult.costUsd planResult))
                        (foldl (\<lambda>sum r. numAdd sum (orZero (WorkerResult.costUsd r))) (Num 0)
                           (workerResults s)))
                     (case summaryCall env of Inl err \<Rightarrow> Num 0
                      | Inr summaryResult \<Rightarrow> orZero (ClaudeResult.costUsd summaryResult)))"
proof -
  from assms obtain planResult where plan: "planningCall env = Inr planResult"
    by (cases "planningCall env") (simp_all add: execute_def)
  show ?thesis
  proof (cases "parsePlan env (ClaudeResult.result planResult)")
    case (Inl msg)
    with assms plan show ?thesis
      by (auto simp: execute_def)
  next
    case (Inr parsed)
    let ?st = "runWorkers env workRequest (capWorkers parsed)"
    let ?pc = "planContextForWorkers workRequest (capWorkers parsed)"
    let ?tw = "length (workers (capWorkers parsed))"
    have "list_all2 (entryOf (workerRun env) ?pc ?tw) (history ?st) (workerResults' ?st)"
      by (rule runWorkers_entries)
    then have "list_all2 (\<lambda>h r. r = snd (last (attempts h))) (history ?st) (workerResults' ?st)"
      by (rule list_all2_mono) (rule entryOf_last)
    with assms plan Inr show ?thesis
      by (auto simp: execute_def summaryPhase_def workerCost_def Let_def split: sum.splits)
  qed
qed

theorem total_cost_counts_final_results_witness:
  "workerResults' (runWorkers (exEnv exSeqPlan1 exTransient) exRequest exSeqPlan1)
     = [exResult ''A-retry'' True ''done'' 2]
   \<and> map (\<lambda>h. map snd (attempts h))
        (history (runWorkers (exEnv exSeqPlan1 exTransient) exRequest exSeqPlan1))
     = [[exResult ''A'' False ''Error: 429 rate limit'' 1, exResult ''A-retry'' True ''done'' 2]]
   \<and> numAdd (numAdd (Num 3) (numAdd (Num 0) (Num 2))) (Num 4) = Num 9"
  using total_cost_counts_final_results [OF exTransient_total]
  by (simp add: exEnv_sel exTransient_cap exTransient_run)
     (simp add: exClaude_def exResult_def orZero_def falsy_def numAdd_def canonical_def ex_sums)

text \<open>
  The claim as stated fails: a first attempt that cost 1 and failed with a rate-limit
  text, retried at cost 2, with planning at 3 and the summary at 4, gives a total of 9,
  where the sum over every attempt is 10.
\<close>

theorem total_cost_counterexample:
  "execute (exEnv exSeqPlan1 exTransient) exRequest =
     Returned \<lparr> overallSuccess = True, summary = ''All done.'',
                workerResults = [exResult ''A-retry'' True ''done'' 2], totalCostUsd = Num 9 \<rparr>
   \<and> everyAttemptCost (exEnv exSeqPlan1 exTransient) (exClaude ''plan'' 3)
         (runWorkers (exEnv exSeqPlan1 exTransient) exRequest exSeqPlan1) = Num 10"
  by (simp add: everyAttemptCost_def exTransient_run exTransient_total exEnv_sel)
     (simp add: exClaude_def exResult_def orZero_def falsy_def numAdd_def canonical_def ex_sums)

text \<open>
  C3 (as amended). For every scheduled worker, in either mode: if the first execution
  has \<open>success = false\<close> and a result text matching a transient-error pattern, exactly
  two executions are made, the second with the same task under the id \<open><id>-retry\<close>,
  and the entry of \<open>workerResults\<close> is the second result; otherwise exactly one
  execution is made and its result is the entry.
\<close>

theorem retry_once_when_failed_transient:
  assumes "st = runWorkers env workRequest plan"
    and "n < length (history st)"
    and "t = augmentTask (planContextForWorkers workRequest plan) (length (workers plan))
               (workerNumber (history st ! n)) (priorResults (history st ! n))
               (planTask (history st ! n))"
    and "retryTask = t\<lparr> id' := id' t @ ''-retry'' \<rparr>"
    and "first = executeWithMonitoring (workerRun env) t"
    and "second = executeWithMonitoring (workerRun env) retryTask"
  shows "length (workerResults' st) = length (history st) \<and>
         (if \<not> success first \<and> isTransientError (WorkerResult.result first)
          then attempts (history st ! n) = [(t, first), (retryTask, second)]
               \<and> workerResults' st ! n = second
          else attempts (history st ! n) = [(t, first)] \<and> workerResults' st ! n = first)"
proof -
  let ?pc = "planContextForWorkers workRequest plan" and ?tw = "length (workers plan)"
  have all: "list_all2 (entryOf (workerRun env) ?pc ?tw) (history st) (workerResults' st)"
    unfolding assms(1) by (rule runWorkers_entries)
  then have len: "length (workerResults' st) = length (history st)"
    by (simp add: list_all2_lengthD)
  from all assms(2) have "entryOf (workerRun env) ?pc ?tw (history st ! n) (workerResults' st ! n)"
    by (rule list_all2_nthD)
  from entryOf_cases [OF this assms(3)] len show ?thesis
    unfolding assms(4,5,6) by simp
qed

theorem retry_once_when_failed_transient_witness:
  "length (workerResults' (runWorkers (exEnv exSeqPlan1 exTransient) exRequest exSeqPlan1)) = 1
   \<and> map (\<lambda>a. (id' (fst a), snd a))
         (attempts (history (runWorkers (exEnv exSeqPlan1 exTransient) exRequest exSeqPlan1) ! 0))
       = [(''A'', exResult ''A'' False ''Error: 429 rate limit'' 1),
          (''A-retry'', exResult ''A-retry'' True ''done'' 2)]
   \<and> workerResults' (runWorkers (exEnv exSeqPlan1 exTransient) exRequest exSeqPlan1) ! 0
       = exResult ''A-retry'' True ''done'' 2"
  using retry_once_when_failed_transient
          [OF refl _ refl refl refl refl, of 0 "exEnv exSeqPlan1 exTransient" exRequest exSeqPlan1]
  by (simp add: exTransient_run)
     (simp add: exTask_def)

text \<open>
  The claim as stated fails: a first execution that succeeds with a text containing
  "429" is not run again.
\<close>

theorem retry_counterexample:
  "isTransientError (WorkerResult.result (executeWithMonitoring exSuccess429 (exTask ''A'' None)))
   \<and> snd (executeWithRetry exSuccess429 (exTask ''A'' None))
       = [(exTask ''A'' None, exResult ''A'' True ''handled the 429 case'' 2)]"
  by (simp add: executeWithRetry_def executeWithMonitoring_def exSuccess429_def exResolved_def
        exResult_def exTask_def ex_transient_texts Let_def)

text \<open>
  C4. In sequential mode, if the Worker Result at position \<open>i\<close> of \<open>workerResults\<close> has
  \<open>success = false\<close> (the result after the retry, if there was one), then it is the last
  one: \<open>workerResults\<close> has exactly \<open>i + 1\<close> entries, all earlier ones succeeded, the
  workers that were started are exactly the first \<open>i + 1\<close> of the plan, so the later
  ones were skipped and have no entry, and \<open>overallSuccess\<close> is false.  With a plan
  of three workers and \<open>i = 1\<close>: two entries.
\<close>

theorem sequential_fail_fast:
  assumes "planningCall env = Inr planResult"
    and "parsePlan env (ClaudeResult.result planResult) = Inr parsed"
    and "sequential parsed"
    and "execute env workRequest = Returned s"
    and "i < length (workerResults s)"
    and "\<not> success (workerResults s ! i)"
  shows "length (workerResults s) = Suc i
         \<and> \<not> overallSuccess s
         \<and> (\<forall>j < i. success (workerResults s ! j))
         \<and> map planTask (history (runWorkers env workRequest (capWorkers parsed))) =
             take (Suc i) (workers (capWorkers parsed))"
proof -
  let ?plan = "capWorkers parsed"
  let ?st = "runWorkers env workRequest ?plan"
  have seq: "sequential ?plan"
    using assms(3) by (simp add: capWorkers_def)
  have res: "workerResults s = workerResults' ?st"
    using assms(1,2,4) by (auto simp: execute_def summaryPhase_def Let_def split: prod.splits)
  have inv: "failFastInv ?st"
    using seq by (simp add: runWorkers_def Let_def seqLoop_failFastInv failFastInv_initial)
  have len: "length (workerResults s) = Suc i"
    using failFastInv_failure_is_last [OF inv] assms(5,6) res by simp
  have "\<not> overallSuccess s"
    using assms(1,2,4,5,6)
    by (auto simp: execute_def summaryPhase_def Let_def list_all_length split: prod.splits)
  moreover have "\<forall>j < i. success (workerResults s ! j)"
    using inv len res by (auto simp: failFastInv_def list_all_length nth_butlast)
  moreover have "map planTask (history ?st) = take (Suc i) (workers ?plan)"
    using seq_run_planTasks [OF seq, of env workRequest] len res by simp
  ultimately show ?thesis using len by simp
qed

theorem sequential_fail_fast_witness:
  "execute (exEnv exSeqPlan3 (exFailing ''B'')) exRequest =
     Returned \<lparr> overallSuccess = False, summary = ''All done.'',
                workerResults = [exResult ''A'' True ''done'' 2, exResult ''B'' False ''compile error'' 1],
                totalCostUsd = Num 10 \<rparr>
   \<and> length (workers exSeqPlan3) = 3
   \<and> map planTask (history (runWorkers (exEnv exSeqPlan3 (exFailing ''B'')) exRequest exSeqPlan3)) =
       [exTask ''A'' None, exTask ''B'' None]"
  using sequential_fail_fast [of "exEnv exSeqPlan3 (exFailing ''B'')" "exClaude ''plan'' 3" exSeqPlan3
          exRequest _ 1, OF _ _ _ exSeqPlan3_run]
  by (simp add: exSeqPlan3_run)
     (simp add: exEnv_def exClaude_def exSeqPlan3_def capWorkers_def MAX_WORKERS_def exResult_def)

text \<open>
  C8. The planning call is awaited outside any \<open>try\<close>: when the Assistant Invoker
  rejects (a timeout, a non-zero exit with empty stdout), \<open>execute\<close> rejects with the
  same error and returns no Summary.  The summary call, in contrast, is wrapped in a
  \<open>try\<close>/\<open>catch\<close>.
\<close>

theorem planning_failure_escapes:
  "execute (env\<lparr> planningCall := Inl err \<rparr>) workRequest = Threw err"
  by (simp add: execute_def)

text \<open>
  C9. When the per-worker timeout fires it aborts the worker's own controller; if the
  executor then rejects while the orchestration signal is not aborted, the catch handler
  takes its first branch, whatever the error message, and the Worker Result reads
  "Worker killed by user", not "timed out".
\<close>

theorem worker_timeout_reads_killed:
  "executeWithMonitoring
     (\<lambda>t. run\<lparr> outcome := Rejected msg, timeoutFired := True, orchAborted := False \<rparr>) t
   = \<lparr> taskId = id' t, success = False, result = ''Worker killed by user'',
       costUsd = None, duration = Some (elapsed run) \<rparr>"
  by (simp add: executeWithMonitoring_def workerAbortAborted_def)

section \<open>Claims about parallel scheduling\<close>

text \<open>
  C5. In parallel mode, for the worker \<open>h\<close> whose result is entry \<open>n\<close> of \<open>workerResults\<close>:
  there is a state \<open>s\<close> in which the loop of this run started a round, with the worker
  among the ready workers of that round, every id of its \<open>dependsOn\<close> in \<open>completed\<close>, and
  every id in \<open>completed\<close> the id of a worker whose result was already pushed, the results
  pushed by then being the first entries of the final \<open>workerResults\<close>, all before \<open>n\<close>.
  The prior results handed to the context builder are, one for each declared dependency
  and in that order, the Worker Result recorded at an earlier position for a worker with
  that dependency's id.  The prompt of every execution made for the worker is the plan
  context, the line with its worker number, then (when it has dependencies) one block
  for each of these results and for no other, holding the task id, the status and the
  result text (cut after 8000 characters), and last the task's own prompt.
\<close>

theorem parallel_dependencies_first:
  assumes "\<not> sequential plan"
    and "st = runWorkers env workRequest plan"
    and "n < length (history st)"
    and "h = history st ! n"
    and "planContext = planContextForWorkers workRequest plan"
    and "totalWorkers = length (workers plan)"
  shows "length (workerResults' st) = length (history st)
         \<and> entryOf (workerRun env) planContext totalWorkers h (workerResults' st ! n)
         \<and> (\<exists>s. scheduling (workerRun env) (signalAborted env) planContext totalWorkers plan s
                \<and> planTask h \<in> set (readyWorkers plan s)
                \<and> set (deps (planTask h)) \<subseteq> set (completed s)
                \<and> length (workerResults' s) \<le> n
                \<and> workerResults' s = take (length (workerResults' s)) (workerResults' st)
                \<and> (\<forall>d \<in> set (completed s).
                      \<exists>i < length (workerResults' s). id' (planTask (history st ! i)) = d))
         \<and> list_all2 (\<lambda>d r. \<exists>i<n. id' (planTask (history st ! i)) = d \<and> workerResults' st ! i = r)
              (deps (planTask h)) (priorResults h)
         \<and> (\<forall>a \<in> set (attempts h).
               prompt (fst a) =
                 planContext @ nl @ nl @ ''You are Worker #'' @ showNumber (workerNumber h) @ '' of ''
                 @ showNat totalWorkers @ ''.''
                 @ (if priorResults h = [] then []
                    else nl @ nl @ ''## Results from prior workers:''
                         @ concat (map (\<lambda>r. nl @ nl @ ''--- '' @ taskId r @ '' [''
                                 @ (if success r then ''SUCCESS'' else ''FAILED'') @ ''] ---'' @ nl
                                 @ (if 8000 < length (WorkerResult.result r)
                                    then take 8000 (WorkerResult.result r) @ nl @ ''... (truncated, ''
                                         @ showNat (length (WorkerResult.result r) - 8000)
                                         @ '' chars omitted)''
                                    else WorkerResult.result r)) (priorResults h))
                         @ nl @ nl
                         @ ''Use the above results to inform your work. Do not repeat work already done.'')
                 @ nl @ nl @ ''---'' @ nl @ nl @ ''## Your specific task:'' @ nl @ prompt (planTask h))"
proof -
  have inv: "parInv st"
    unfolding assms(2) using assms(1) by (rule runWorkers_parInv)
  have all: "list_all2 (entryOf (workerRun env) planContext totalWorkers) (history st) (workerResults' st)"
    unfolding assms(2,5,6) by (rule runWorkers_entries)
  then have len: "length (workerResults' st) = length (history st)"
    by (simp add: list_all2_lengthD)
  from all assms(3) have ent: "entryOf (workerRun env) planContext totalWorkers h (workerResults' st ! n)"
    unfolding assms(4) by (rule list_all2_nthD)
  have "roundInv (workerRun env) (signalAborted env) planContext totalWorkers plan st"
    unfolding assms(2,5,6) using assms(1) by (rule runWorkers_roundInv)
  with assms(3) obtain s where
    s: "startedInRound (workerRun env) (signalAborted env) planContext totalWorkers plan st n s"
    by (auto simp: roundInv_def)
  then have sch: "scheduling (workerRun env) (signalAborted env) planContext totalWorkers plan s"
    and rdy: "planTask h \<in> set (readyWorkers plan s)"
    and le: "length (history s) \<le> n"
    and hs: "history s = take (length (history s)) (history st)"
    and rs: "workerResults' s = take (length (history s)) (workerResults' st)"
    by (simp_all add: startedInRound_def assms(4))
  from sch have cr: "completedRecorded s"
    by (rule scheduling_completedRecorded)
  then have lens: "length (workerResults' s) = length (history s)"
    by (simp add: completedRecorded_def)
  have comp: "\<exists>i < length (workerResults' s). id' (planTask (history st ! i)) = d"
    if "d \<in> set (completed s)" for d
  proof -
    from cr that obtain i where i: "i < length (history s)" "id' (planTask (history s ! i)) = d"
      by (auto simp: completedRecorded_def)
    from i(1) have "history s ! i = history st ! i"
      by (subst hs) simp
    with i lens show ?thesis by auto
  qed
  have round: "\<exists>s. scheduling (workerRun env) (signalAborted env) planContext totalWorkers plan s
                \<and> planTask h \<in> set (readyWorkers plan s)
                \<and> set (deps (planTask h)) \<subseteq> set (completed s)
                \<and> length (workerResults' s) \<le> n
                \<and> workerResults' s = take (length (workerResults' s)) (workerResults' st)
                \<and> (\<forall>d \<in> set (completed s).
                      \<exists>i < length (workerResults' s). id' (planTask (history st ! i)) = d)"
    using sch rdy readyWorkers_deps [OF rdy] le rs lens comp
    by (intro exI [of _ s]) simp
  from inv assms(3) have
    "list_all2 (\<lambda>d r. (d, r) \<in> set (take n (recorded st))) (deps (planTask h)) (priorResults h)"
    unfolding assms(4) by (simp add: parInv_def)
  then have ord: "list_all2 (\<lambda>d r. \<exists>i<n. id' (planTask (history st ! i)) = d \<and> workerResults' st ! i = r)
              (deps (planTask h)) (priorResults h)"
    by (rule list_all2_mono) (use recorded_take_nth in blast)
  have prompts: "prompt (fst a) =
                 planContext @ nl @ nl @ ''You are Worker #'' @ showNumber (workerNumber h) @ '' of ''
                 @ showNat totalWorkers @ ''.''
                 @ (if priorResults h = [] then []
                    else nl @ nl @ ''## Results from prior workers:''
                         @ concat (map (\<lambda>r. nl @ nl @ ''--- '' @ taskId r @ '' [''
                                 @ (if success r then ''SUCCESS'' else ''FAILED'') @ ''] ---'' @ nl
                                 @ (if 8000 < length (WorkerResult.result r)
                                    then take 8000 (WorkerResult.result r) @ nl @ ''... (truncated, ''
                                         @ showNat (length (WorkerResult.result r) - 8000)
                                         @ '' chars omitted)''
                                    else WorkerResult.result r)) (priorResults h))
                         @ nl @ nl
                         @ ''Use the above results to inform your work. Do not repeat work already done.'')
                 @ nl @ nl @ ''---'' @ nl @ nl @ ''## Your specific task:'' @ nl @ prompt (planTask h)"
    if "a \<in> set (attempts h)" for a
    unfolding entryOf_prompts [OF ent that]
    by (simp add: augmentTask_def buildWorkerContextPrefix_text)
  from len ent round ord prompts show ?thesis
    by blast
qed

theorem parallel_dependencies_first_witness:
  "map (\<lambda>a. (includes' (prompt (fst a)) (''--- B [SUCCESS] ---'' @ nl @ ''output of B''),
             includes' (prompt (fst a)) (''--- C [SUCCESS] ---'' @ nl @ ''output of C''),
             includes' (prompt (fst a)) ''output of A''))
     (attempts (history (runWorkers (exEnv exParPlan exEcho) exRequest exParPlan) ! 3))
     = [(True, True, False)]
   \<and> list_all2
        (\<lambda>d r. \<exists>i<3. id' (planTask (history (runWorkers (exEnv exParPlan exEcho) exRequest exParPlan) ! i)) = d
                  \<and> workerResults' (runWorkers (exEnv exParPlan exEcho) exRequest exParPlan) ! i = r)
        [''B'', ''C''] [exResult ''B'' True ''output of B'' 2, exResult ''C'' True ''output of C'' 2]"
proof -
  let ?st = "runWorkers (exEnv exParPlan exEcho) exRequest exParPlan"
  let ?h = "history ?st ! 3"
  have par: "\<not> sequential exParPlan"
    by (simp add: exParPlan_def)
  have n: "3 < length (history ?st)"
    by (simp add: exEcho_last)
  have four: "length (workers exParPlan) = 4"
    by (simp add: exParPlan_def)
  note inst = parallel_dependencies_first [OF par refl n refl refl refl]
  obtain a where a: "attempts ?h = [a]"
    using exEcho_last(5) by (cases "attempts ?h") auto
  then have "a \<in> set (attempts ?h)" by simp
  from inst [THEN conjunct2, THEN conjunct2, THEN conjunct2, THEN conjunct2, rule_format, OF this]
  have pa: "prompt (fst a) = exPromptD"
    by (simp add: exEcho_last(2,3,4) four exPromptD_def exPromptD_facts(4) showNumber_def
          exTask_def exResult_def)
  have 1: "map (\<lambda>a. (includes' (prompt (fst a)) (''--- B [SUCCESS] ---'' @ nl @ ''output of B''),
             includes' (prompt (fst a)) (''--- C [SUCCESS] ---'' @ nl @ ''output of C''),
             includes' (prompt (fst a)) ''output of A''))
     (attempts ?h) = [(True, True, False)]"
    by (simp only: a list.map pa exPromptD_facts(1,2,3) simp_thms)
  from inst [THEN conjunct2, THEN conjunct2, THEN conjunct2, THEN conjunct1]
  have 2: "list_all2
        (\<lambda>d r. \<exists>i<3. id' (planTask (history ?st ! i)) = d \<and> workerResults' ?st ! i = r)
        [''B'', ''C''] [exResult ''B'' True ''output of B'' 2, exResult ''C'' True ''output of C'' 2]"
    by (simp add: exEcho_last(2,4) deps_def exTask_def)
  from 1 2 show ?thesis by simp
qed

text \<open>
  C6 (as amended). In parallel mode, for a plan whose worker ids are distinct and a round
  run by the loop: fail-fast is triggered by the round only if some worker of the round
  failed; when the failed workers of the round come before its successful ones in the
  order of the round, it is triggered exactly when some worker still remaining
  transitively depends on a worker that failed in the round, which is the case exactly
  when some remaining worker lists such a worker in its \<open>dependsOn\<close>; and once it is
  triggered the loop ends there, so that every worker still remaining is skipped,
  whether or not it depends on a failed worker.
\<close>

theorem parallel_fail_fast:
  assumes "scheduling worker aborted planContext totalWorkers plan st"
    and "distinct (map id' (workers plan))"
    and "\<not> failFastTriggered st"
    and "ready = readyWorkers plan st"
    and "results = roundResults worker planContext totalWorkers plan ready st"
    and "st' = parRound worker planContext totalWorkers plan ready st"
  shows "(failFastTriggered st' \<longrightarrow> list_ex (\<lambda>r. \<not> success r) results)
         \<and> (failuresFirst results \<longrightarrow>
              (failFastTriggered st' \<longleftrightarrow>
                 (\<exists>w \<in> set (workers plan). id' w \<in> set (remaining st')
                    \<and> (\<exists>f \<in> set (failedInRound ready results). dependsTransitively plan (id' w) f))))
         \<and> (failuresFirst results \<longrightarrow>
              (failFastTriggered st' \<longleftrightarrow>
                 (\<exists>w \<in> set (workers plan). id' w \<in> set (remaining st')
                    \<and> (\<exists>f \<in> set (failedInRound ready results). f \<in> set (deps w)))))
         \<and> (failFastTriggered st' \<longrightarrow>
              parLoop worker aborted planContext totalWorkers plan st' = st'
              \<and> list_all (\<lambda>h. id' (planTask h) \<notin> set (remaining st')) (history st'))"
proof -
  have len: "length ready = length results"
    by (simp add: assms(5) roundResults_def)
  have inv: "schedInv plan st"
    using assms(1,2) by (rule scheduling_schedInv)
  have ff: "failFastTriggered st' \<longleftrightarrow>
      list_ex (\<lambda>r. \<not> success r) results \<and> blockedWorkers plan st' (failedIds ready results) \<noteq> []"
    unfolding assms(6) assms(5) using assms(3) by (simp add: parRound_failFast)
  have direct: "failFastTriggered st' \<longleftrightarrow>
      (\<exists>w \<in> set (workers plan). id' w \<in> set (remaining st')
          \<and> (\<exists>f \<in> set (failedInRound ready results). f \<in> set (deps w)))"
    if "failuresFirst results"
  proof -
    have "failedIds ready results = failedInRound ready results"
      using len that by (rule failedIds_failuresFirst)
    moreover have "failedInRound ready results \<noteq> [] \<longleftrightarrow> list_ex (\<lambda>r. \<not> success r) results"
      using len by (rule failedInRound_nonempty)
    ultimately show ?thesis
      unfolding ff blockedWorkers_nonempty by auto
  qed
  have trans: "(\<exists>w \<in> set (workers plan). id' w \<in> set (remaining st')
          \<and> (\<exists>f \<in> set (failedInRound ready results). dependsTransitively plan (id' w) f))
      \<longleftrightarrow> (\<exists>w \<in> set (workers plan). id' w \<in> set (remaining st')
          \<and> (\<exists>f \<in> set (failedInRound ready results). f \<in> set (deps w)))"
    (is "?T \<longleftrightarrow> ?D")
  proof
    assume ?T
    then obtain w :: WorkerTask and f where f: "f \<in> set (failedInRound ready results)"
      and "dependsTransitively plan (id' w) f" by auto
    then obtain x where x: "x \<in> set (workers plan)" "f \<in> set (deps x)"
      using dependsTransitively_last by blast
    from f failedInRound_subset have "f \<in> id' ` set (readyWorkers plan st)"
      unfolding assms(4) by blast
    with inv assms(2) x have "id' x \<in> set (remaining st')"
      unfolding assms(6) assms(4) by (rule direct_dependent_remains)
    with x f show ?D by blast
  next
    assume ?D
    then obtain w :: WorkerTask and f where w: "w \<in> set (workers plan)" "id' w \<in> set (remaining st')"
      "f \<in> set (failedInRound ready results)" "f \<in> set (deps w)" by blast
    then have "dependsDirectly plan (id' w) f"
      by (auto simp: dependsDirectly_def list_ex_iff)
    then have "dependsTransitively plan (id' w) f"
      by (simp add: dependsTransitively_def tranclp.r_into_trancl)
    with w show ?T by blast
  qed
  have stop: "parLoop worker aborted planContext totalWorkers plan st' = st'" if "failFastTriggered st'"
    using that by (simp add: parLoop_stop)
  have "remainingNotRun st'"
    unfolding assms(6) using assms(1) by (intro parRound_remainingNotRun scheduling_remainingNotRun)
  then have skipped: "list_all (\<lambda>h. id' (planTask h) \<notin> set (remaining st')) (history st')"
    by (simp add: remainingNotRun_def)
  show ?thesis
  proof (intro conjI impI)
    assume "failFastTriggered st'"
    with ff show "list_ex (\<lambda>r. \<not> success r) results" by simp
  next
    assume "failuresFirst results"
    with direct trans show "failFastTriggered st' \<longleftrightarrow>
        (\<exists>w \<in> set (workers plan). id' w \<in> set (remaining st')
           \<and> (\<exists>f \<in> set (failedInRound ready results). dependsTransitively plan (id' w) f))"
      by simp
  next
    assume "failuresFirst results"
    with direct show "failFastTriggered st' \<longleftrightarrow>
        (\<exists>w \<in> set (workers plan). id' w \<in> set (remaining st')
           \<and> (\<exists>f \<in> set (failedInRound ready results). f \<in> set (deps w)))"
      by simp
  next
    assume "failFastTriggered st'"
    then show "parLoop worker aborted planContext totalWorkers plan st' = st'" by (rule stop)
  next
    show "list_all (\<lambda>h. id' (planTask h) \<notin> set (remaining st')) (history st')" by (rule skipped)
  qed
qed

theorem parallel_fail_fast_witness:
  "failFastTriggered (parRound (exFailing ''A'') [] 4 exSkipPlan (readyWorkers exSkipPlan exSkipStart) exSkipStart)
   \<and> failuresFirst [exResult ''A'' False ''compile error'' 1, exResult ''B'' True ''done'' 2]
   \<and> (\<exists>w \<in> set (workers exSkipPlan).
         id' w \<in> set [''C'', ''D'']
         \<and> (\<exists>f \<in> set (failedInRound [exTask ''A'' None, exTask ''B'' None]
                        [exResult ''A'' False ''compile error'' 1, exResult ''B'' True ''done'' 2]).
               dependsTransitively exSkipPlan (id' w) f))
   \<and> parLoop (exFailing ''A'') (\<lambda>n. False) [] 4 exSkipPlan
        (parRound (exFailing ''A'') [] 4 exSkipPlan (readyWorkers exSkipPlan exSkipStart) exSkipStart)
      = parRound (exFailing ''A'') [] 4 exSkipPlan (readyWorkers exSkipPlan exSkipStart) exSkipStart"
proof -
  have sched: "scheduling (exFailing ''A'') (\<lambda>n. False) [] 4 exSkipPlan exSkipStart"
    unfolding exSkipStart_def by (rule scheduling.start)
  have dist: "distinct (map id' (workers exSkipPlan))"
    by (simp add: exSkipPlan_def exTask_def)
  have nff: "\<not> failFastTriggered exSkipStart"
    by (simp add: exSkipStart_def initialLocals_def)
  have ff: "failuresFirst [exResult ''A'' False ''compile error'' 1, exResult ''B'' True ''done'' 2]"
    by (simp add: failuresFirst_def exResult_def)
  from parallel_fail_fast [OF sched dist nff refl refl refl] ff
  show ?thesis
    by (simp add: exSkip_ready exSkip_round)
qed

text \<open>
  The claim as stated fails: with \<open>A\<close> and \<open>B\<close> independent, \<open>C\<close> depending on \<open>A\<close> and
  \<open>D\<close> on \<open>B\<close>, when \<open>A\<close> fails and \<open>B\<close> succeeds, \<open>D\<close> does not depend on the failed
  worker and is skipped all the same.
\<close>

theorem parallel_fail_fast_counterexample:
  "map success (workerResults' (runWorkers (exEnv exSkipPlan (exFailing ''A'')) exRequest exSkipPlan))
     = [False, True]
   \<and> failFastTriggered (runWorkers (exEnv exSkipPlan (exFailing ''A'')) exRequest exSkipPlan)
   \<and> remaining (runWorkers (exEnv exSkipPlan (exFailing ''A'')) exRequest exSkipPlan) = [''C'', ''D'']
   \<and> map (\<lambda>h. id' (planTask h))
        (history (runWorkers (exEnv exSkipPlan (exFailing ''A'')) exRequest exSkipPlan)) = [''A'', ''B'']
   \<and> \<not> dependsTransitively exSkipPlan ''D'' ''A''"
  by (simp add: exSkip_run exSkip_D_independent) (simp add: exResult_def)

text \<open>
  C7 (as amended). In parallel mode, a round that finds no ready worker while \<open>remaining\<close>
  is non-empty ends the scheduling loop and nothing else: no error is raised.  When the
  run ends in such a state, \<open>execute\<close> still returns a Summary; it holds the results of
  the workers that ran, \<open>overallSuccess\<close> is true exactly when at least one worker ran and
  all that ran succeeded, and no worker whose id is left in \<open>remaining\<close> was executed or
  has a Worker Result.
\<close>

theorem deadlock_ends_scheduling_only:
  assumes "planningCall env = Inr planResult"
    and "parsePlan env (ClaudeResult.result planResult) = Inr parsed"
    and "plan = capWorkers parsed"
    and "\<not> sequential plan"
    and "st = runWorkers env workRequest plan"
    and "remaining st \<noteq> []"
    and "readyWorkers plan st = []"
  shows "(\<forall>worker aborted planContext totalWorkers s.
            remaining s \<noteq> [] \<and> readyWorkers plan s = []
            \<longrightarrow> parLoop worker aborted planContext totalWorkers plan s = s)
         \<and> (\<exists>s. execute env workRequest = Returned s
                \<and> workerResults s = workerResults' st
                \<and> (overallSuccess s \<longleftrightarrow> workerResults' st \<noteq> [] \<and> list_all success (workerResults' st)))
         \<and> list_all (\<lambda>h. id' (planTask h) \<notin> set (remaining st)) (history st)"
proof -
  have "remainingNotRun st"
    unfolding assms(5) using assms(4) by (rule runWorkers_remainingNotRun)
  then have "list_all (\<lambda>h. id' (planTask h) \<notin> set (remaining st)) (history st)"
    by (simp add: remainingNotRun_def)
  moreover have "\<exists>s. execute env workRequest = Returned s
                \<and> workerResults s = workerResults' st
                \<and> (overallSuccess s \<longleftrightarrow> workerResults' st \<noteq> [] \<and> list_all success (workerResults' st))"
    using assms(1,2,3,5)
    by (auto simp: execute_def summaryPhase_def Let_def split: prod.splits)
  ultimately show ?thesis
    by (simp add: parLoop_stop)
qed

theorem deadlock_ends_scheduling_only_witness:
  "\<exists>s. execute (exEnv exDeadlockPlan exAllOk) exRequest = Returned s
       \<and> workerResults s = [exResult ''A'' True ''done'' 2]
       \<and> overallSuccess s"
  using deadlock_ends_scheduling_only
          [of "exEnv exDeadlockPlan exAllOk" "exClaude ''plan'' 3" exDeadlockPlan exDeadlockPlan _ exRequest,
           OF _ _ _ _ refl]
  by (simp add: exDeadlock_run exDeadlock_ready exEnv_sel exDeadlock_cap)
     (simp add: exDeadlockPlan_def exResult_def)

text \<open>
  The claim as stated fails: with a worker \<open>A\<close> that succeeds and a worker \<open>B\<close> that
  depends on an id no worker has, the run ends with \<open>B\<close> remaining and nothing ready,
  and the Summary returned has \<open>overallSuccess = true\<close>.
\<close>

theorem deadlock_counterexample:
  "remaining (runWorkers (exEnv exDeadlockPlan exAllOk) exRequest exDeadlockPlan) = [''B'']
   \<and> readyWorkers exDeadlockPlan (runWorkers (exEnv exDeadlockPlan exAllOk) exRequest exDeadlockPlan) = []
   \<and> execute (exEnv exDeadlockPlan exAllOk) exRequest =
       Returned \<lparr> overallSuccess = True, summary = ''All done.'',
                  workerResults = [exResult ''A'' True ''done'' 2], totalCostUsd = Num 9 \<rparr>"
  by (simp add: exDeadlock_run exDeadlock_ready execute_def exEnv_sel exDeadlock_cap summaryPhase_def
        workerCost_def)
     (simp add: exClaude_def orZero_def falsy_def numAdd_def canonical_def ex_sums exResult_def)

section \<open>Claims about the chat response\<close>

text \<open>
  C10 (as amended). Take any reply that contains an action block, and let its first
  action block be the one that begins at the first opening action tag and ends at the
  first closing action tag after it.  If the trimmed body of that block parses to a JSON
  value with \<open>type\<close> equal to \<open>"work_request"\<close> and a truthy \<open>task\<close>, the action returned
  is that JSON value (so its task, context and urgency are the JSON's); if the body does
  not parse, no action is returned.  In both cases the chat text is what is left of the
  reply once that block and then the first memory block of the rest, if there is one, are
  cut out, trimmed, or \<open>"Working on it..."\<close> when that is empty; and the chat text
  contains one of the four tags exactly when the text left does.  Nothing is assumed on
  the order of the two blocks or on the text around them.
\<close>

theorem chat_response_parsing:
  assumes "text = lead @ ACTION_OPEN @ actionBody @ ACTION_CLOSE @ rest"
    and "\<not> includes' lead ACTION_OPEN"
    and "\<not> includes' actionBody ACTION_CLOSE"
    and "case memory of
           None \<Rightarrow>
             (\<forall>a m b. lead @ rest \<noteq> a @ MEMORY_OPEN @ m @ MEMORY_CLOSE @ b) \<and> outside = lead @ rest
         | Some (pre, m, post) \<Rightarrow>
             lead @ rest = pre @ MEMORY_OPEN @ m @ MEMORY_CLOSE @ post
             \<and> \<not> includes' pre MEMORY_OPEN \<and> \<not> includes' m MEMORY_CLOSE
             \<and> outside = pre @ post"
    and "r = parseChatResponse jsonParse text"
  shows "(\<forall>parsed. jsonParse (trim actionBody) = Some parsed
                  \<and> getProp parsed ''type'' = Some (JStr ''work_request'')
                  \<and> truthy (getProp parsed ''task'')
            \<longrightarrow> action r = Some parsed)
         \<and> (jsonParse (trim actionBody) = None \<longrightarrow> action r = None)
         \<and> chatText r = (if trim outside = [] then ''Working on it...'' else trim outside)
         \<and> (containsDelimiter (chatText r) \<longleftrightarrow> containsDelimiter outside)"
proof -
  have am: "matchBlock ACTION_OPEN ACTION_CLOSE text = Some (lead, actionBody, rest)"
    using assms(2,3) unfolding assms(1) delimiter_shapes
    by (intro matchBlock_first) simp_all
  then have ra: "replaceBlock ACTION_OPEN ACTION_CLOSE text = lead @ rest"
    by (simp add: replaceBlock_def)
  have rm: "replaceBlock MEMORY_OPEN MEMORY_CLOSE (lead @ rest) = outside"
  proof (cases memory)
    case None
    with assms(4) have "matchBlock MEMORY_OPEN MEMORY_CLOSE (lead @ rest) = None"
      by (intro matchBlock_no_block) simp
    with None assms(4) show ?thesis by (simp add: replaceBlock_def)
  next
    case (Some x)
    obtain pre m post where x: "x = (pre, m, post)" by (cases x)
    with Some assms(4) have split: "lead @ rest = pre @ MEMORY_OPEN @ m @ MEMORY_CLOSE @ post"
      and fresh: "\<not> includes' pre MEMORY_OPEN" "\<not> includes' m MEMORY_CLOSE"
      and out: "outside = pre @ post"
      by simp_all
    have "matchBlock MEMORY_OPEN MEMORY_CLOSE (pre @ MEMORY_OPEN @ m @ MEMORY_CLOSE @ post)
            = Some (pre, m, post)"
      using fresh unfolding delimiter_shapes by (intro matchBlock_first) simp_all
    then show ?thesis
      unfolding split out by (simp add: replaceBlock_def)
  qed
  have act: "action r = parseAction jsonParse actionBody"
    unfolding assms(5) by (simp add: parseChatResponse_def Let_def am)
  have ctext: "chatText r = (if trim outside = [] then ''Working on it...'' else trim outside)"
    unfolding assms(5) by (simp add: parseChatResponse_def Let_def ra rm)
  have valid: "action r = Some parsed"
    if "jsonParse (trim actionBody) = Some parsed"
      "getProp parsed ''type'' = Some (JStr ''work_request'')" "truthy (getProp parsed ''task'')"
    for parsed
    using that unfolding act by (cases parsed) (simp_all add: parseAction_def)
  have malformed: "action r = None" if "jsonParse (trim actionBody) = None"
    using that unfolding act by (simp add: parseAction_def)
  have "containsDelimiter (chatText r) \<longleftrightarrow> containsDelimiter outside"
    unfolding ctext by (rule containsDelimiter_placeholder)
  with valid malformed ctext show ?thesis by blast
qed

theorem chat_response_parsing_witness:
  "action (parseChatResponse exJsonParse exReply) = Some exActionObj
   \<and> getProp exActionObj ''task'' = Some (JStr ''fix the build'')
   \<and> chatText (parseChatResponse exJsonParse exReply) = ''a < b, noted.  On it!''
   \<and> \<not> containsDelimiter (chatText (parseChatResponse exJsonParse exReply))"
proof -
  have shape: "exReply =
      (''a < b, noted. '' @ MEMORY_OPEN @ ''likes tabs'' @ MEMORY_CLOSE @ '' On it! '')
      @ ACTION_OPEN @ exActionJson @ ACTION_CLOSE @ []"
    by (simp add: exReply_def)
  have mem: "case Some (''a < b, noted. '', ''likes tabs'', '' On it! '') of
           None \<Rightarrow>
             (\<forall>a m b. (''a < b, noted. '' @ MEMORY_OPEN @ ''likes tabs'' @ MEMORY_CLOSE @ '' On it! '') @ []
                        \<noteq> a @ MEMORY_OPEN @ m @ MEMORY_CLOSE @ b)
             \<and> ''a < b, noted. '' @ '' On it! ''
                 = (''a < b, noted. '' @ MEMORY_OPEN @ ''likes tabs'' @ MEMORY_CLOSE @ '' On it! '') @ []
         | Some (pre, m, post) \<Rightarrow>
             (''a < b, noted. '' @ MEMORY_OPEN @ ''likes tabs'' @ MEMORY_CLOSE @ '' On it! '') @ []
               = pre @ MEMORY_OPEN @ m @ MEMORY_CLOSE @ post
             \<and> \<not> includes' pre MEMORY_OPEN \<and> \<not> includes' m MEMORY_CLOSE
             \<and> ''a < b, noted. '' @ '' On it! '' = pre @ post"
    using exAction_facts(3,4) by simp
  note parsed = chat_response_parsing [OF shape exAction_facts(1,2) mem refl, of exJsonParse]
  have valid: "exJsonParse (trim exActionJson) = Some exActionObj
      \<and> getProp exActionObj ''type'' = Some (JStr ''work_request'')
      \<and> truthy (getProp exActionObj ''task'')"
    by (simp add: exAction_facts(5) exJsonParse_def) (simp add: exActionObj_def)
  from parsed [THEN conjunct1, rule_format, OF valid]
    parsed [THEN conjunct2, THEN conjunct2, THEN conjunct1]
    parsed [THEN conjunct2, THEN conjunct2, THEN conjunct2]
  show ?thesis
    using exAction_facts(6,7) by (simp add: exActionObj_def)
qed

text \<open>
  The claim as stated fails: only the first action block is removed.  A reply holding
  two valid action blocks gives the Work Request of the first and a chat text that still
  contains the second block with its tags.
\<close>

theorem chat_response_parsing_counterexample:
  "action (parseChatResponse exJsonParse
      (''go '' @ ACTION_OPEN @ exActionJson @ ACTION_CLOSE @ ACTION_OPEN @ exActionJson @ ACTION_CLOSE))
     = Some exActionObj
   \<and> containsDelimiter (chatText (parseChatResponse exJsonParse
      (''go '' @ ACTION_OPEN @ exActionJson @ ACTION_CLOSE @ ACTION_OPEN @ exActionJson @ ACTION_CLOSE)))"
  by code_simp

end
